theory Spec2Isabelle
  imports Complex_Main "HOL-Library.Sublist"
begin

section \<open>The bounded queue (class Queue of the in-memory queue demo)\<close>

text \<open>
  \<^verbatim>\<open>
  class Queue {
      constructor(maxSize = 50) { this.items = []; this.maxSize = maxSize; }
      push(item) {
          if (this.items.length >= this.maxSize) return false;
          this.items.push(item);
          return true;
      }
      shift() { return this.items.shift(); }
      size()  { return this.items.length; }
  }
  \<close>
  The array is a list whose head is the front of the queue. The capacity is a natural
  number (the demo constructs \<open>new Queue(20)\<close>). Each method returns its result
  together with the queue after the call; \<open>shift\<close> on an empty array returns
  \<open>undefined\<close>, here \<open>None\<close>.
\<close>

record 'a Queue =
  items :: "'a list"
  maxSize :: nat

definition Queue_new :: "nat \<Rightarrow> 'a Queue" where
  "Queue_new m = \<lparr>items = [], maxSize = m\<rparr>"

definition Queue_push :: "'a Queue \<Rightarrow> 'a \<Rightarrow> bool \<times> 'a Queue" where
  "Queue_push q item =
     (if length (items q) \<ge> maxSize q then (False, q)
      else (True, q\<lparr>items := items q @ [item]\<rparr>))"

definition Queue_shift :: "'a Queue \<Rightarrow> 'a option \<times> 'a Queue" where
  "Queue_shift q =
     (case items q of
        [] \<Rightarrow> (None, q)
      | x # xs \<Rightarrow> (Some x, q\<lparr>items := xs\<rparr>))"

definition Queue_size :: "'a Queue \<Rightarrow> nat" where
  "Queue_size q = length (items q)"

text \<open>
  A client of the queue calls \<open>push\<close> and \<open>shift\<close> in some order. \<open>queue_run\<close>
  performs the calls from left to right; \<open>accepted_of\<close> lists the items whose
  \<open>push\<close> returned true and \<open>dequeued_of\<close> the items that \<open>shift\<close> returned, both
  in the order of the calls.
\<close>

datatype 'a queue_op = Push 'a | Shift

fun queue_run :: "'a queue_op list \<Rightarrow> 'a Queue \<Rightarrow> 'a Queue" where
  "queue_run [] q = q"
| "queue_run (Push x # ops) q = queue_run ops (snd (Queue_push q x))"
| "queue_run (Shift # ops) q = queue_run ops (snd (Queue_shift q))"

fun accepted_of :: "'a queue_op list \<Rightarrow> 'a Queue \<Rightarrow> 'a list" where
  "accepted_of [] q = []"
| "accepted_of (Push x # ops) q =
     (if fst (Queue_push q x) then x # accepted_of ops (snd (Queue_push q x))
      else accepted_of ops (snd (Queue_push q x)))"
| "accepted_of (Shift # ops) q = accepted_of ops (snd (Queue_shift q))"

fun dequeued_of :: "'a queue_op list \<Rightarrow> 'a Queue \<Rightarrow> 'a list" where
  "dequeued_of [] q = []"
| "dequeued_of (Push x # ops) q = dequeued_of ops (snd (Queue_push q x))"
| "dequeued_of (Shift # ops) q =
     (case fst (Queue_shift q) of
        None \<Rightarrow> dequeued_of ops (snd (Queue_shift q))
      | Some y \<Rightarrow> y # dequeued_of ops (snd (Queue_shift q)))"

section \<open>JavaScript numbers and the conversion \<open>Number(...)\<close>\<close>

text \<open>
  The producer and control endpoints convert request text with \<open>Number\<close> and clamp
  with \<open>Math.max\<close>. A JavaScript number is NaN, an infinity or a finite value; finite
  values are kept as exact rationals (the rounding of doubles and the sign of zero are
  not represented). \<open>js_max\<close> is \<open>Math.max\<close> on two arguments: NaN when either one
  is NaN. \<open>js_less\<close> and \<open>js_le\<close> are \<open><\<close> and \<open><=\<close>: false when either side is
  NaN.
\<close>

datatype jsnum = NaN | NegInf | Fin rat | PosInf

fun js_max :: "jsnum \<Rightarrow> jsnum \<Rightarrow> jsnum" where
  "js_max NaN b = NaN"
| "js_max a NaN = NaN"
| "js_max PosInf b = PosInf"
| "js_max a PosInf = PosInf"
| "js_max NegInf b = b"
| "js_max a NegInf = a"
| "js_max (Fin a) (Fin b) = Fin (max a b)"

fun js_less :: "jsnum \<Rightarrow> jsnum \<Rightarrow> bool" where
  "js_less NaN b = False"
| "js_less a NaN = False"
| "js_less PosInf b = False"
| "js_less a PosInf = True"
| "js_less a NegInf = False"
| "js_less NegInf b = True"
| "js_less (Fin a) (Fin b) = (a < b)"

fun js_le :: "jsnum \<Rightarrow> jsnum \<Rightarrow> bool" where
  "js_le NaN b = False"
| "js_le a NaN = False"
| "js_le a PosInf = True"
| "js_le PosInf b = False"
| "js_le NegInf b = True"
| "js_le a NegInf = False"
| "js_le (Fin a) (Fin b) = (a \<le> b)"

fun js_neg :: "jsnum \<Rightarrow> jsnum" where
  "js_neg NaN = NaN"
| "js_neg NegInf = PosInf"
| "js_neg PosInf = NegInf"
| "js_neg (Fin a) = Fin (- a)"

text \<open>
  \<open>Number(str)\<close> on a string follows the StringNumericLiteral grammar of the language:
  white space is trimmed, the empty string is 0, then come the prefixed integer literals
  (\<open>0x\<close>, \<open>0o\<close>, \<open>0b\<close>, unsigned) and the signed decimal literals (\<open>Infinity\<close>,
  digits with an optional fraction and exponent); everything else is NaN. White space is
  the ASCII white space: the other white space of the language (U+00A0, U+FEFF and the
  like) is not trimmed here, and a literal beyond the range or precision of a double
  keeps its exact value where \<open>Number\<close> rounds it or gives an infinity.
\<close>

definition is_ws :: "char \<Rightarrow> bool" where
  "is_ws c = (c \<in> set [CHR '' '', CHR 0x09, CHR 0x0A, CHR 0x0B, CHR 0x0C, CHR 0x0D])"

definition js_trim :: "string \<Rightarrow> string" where
  "js_trim s = rev (dropWhile is_ws (rev (dropWhile is_ws s)))"

definition digit_table :: "(char \<times> nat) list" where
  "digit_table =
     [(CHR ''0'', 0), (CHR ''1'', 1), (CHR ''2'', 2), (CHR ''3'', 3), (CHR ''4'', 4),
      (CHR ''5'', 5), (CHR ''6'', 6), (CHR ''7'', 7), (CHR ''8'', 8), (CHR ''9'', 9),
      (CHR ''a'', 10), (CHR ''b'', 11), (CHR ''c'', 12), (CHR ''d'', 13), (CHR ''e'', 14),
      (CHR ''f'', 15), (CHR ''A'', 10), (CHR ''B'', 11), (CHR ''C'', 12), (CHR ''D'', 13),
      (CHR ''E'', 14), (CHR ''F'', 15)]"

definition digit_of :: "nat \<Rightarrow> char \<Rightarrow> nat option" where
  "digit_of b c =
     (case map_of digit_table c of
        None \<Rightarrow> None
      | Some d \<Rightarrow> if d < b then Some d else None)"

fun digits_val :: "nat \<Rightarrow> nat \<Rightarrow> string \<Rightarrow> nat option" where
  "digits_val b acc [] = Some acc"
| "digits_val b acc (c # cs) =
     (case digit_of b c of
        None \<Rightarrow> None
      | Some d \<Rightarrow> digits_val b (acc * b + d) cs)"

definition parse_digits :: "nat \<Rightarrow> string \<Rightarrow> nat option" where
  "parse_digits b s = (if s = [] then None else digits_val b 0 s)"

definition split_at :: "(char \<Rightarrow> bool) \<Rightarrow> string \<Rightarrow> string \<times> string option" where
  "split_at P s =
     (case dropWhile (\<lambda>c. \<not> P c) s of
        [] \<Rightarrow> (s, None)
      | c # r \<Rightarrow> (takeWhile (\<lambda>c. \<not> P c) s, Some r))"

definition pow10 :: "int \<Rightarrow> rat" where
  "pow10 e = (if 0 \<le> e then 10 ^ nat e else 1 / 10 ^ nat (- e))"

definition parse_exponent :: "string \<Rightarrow> int option" where
  "parse_exponent s =
     (if s \<noteq> [] \<and> hd s = CHR ''+'' then map_option int (parse_digits 10 (tl s))
      else if s \<noteq> [] \<and> hd s = CHR ''-'' then map_option (\<lambda>n. - int n) (parse_digits 10 (tl s))
      else map_option int (parse_digits 10 s))"

definition parse_mantissa :: "string \<Rightarrow> rat option" where
  "parse_mantissa m =
     (case split_at (\<lambda>c. c = CHR ''.'') m of
        (ip, None) \<Rightarrow> map_option of_nat (parse_digits 10 ip)
      | (ip, Some fp) \<Rightarrow>
          (if ip = [] \<and> fp = [] then None
           else case (digits_val 10 0 ip, digits_val 10 0 fp) of
                  (Some a, Some b) \<Rightarrow> Some (of_nat a + of_nat b / 10 ^ length fp)
                | _ \<Rightarrow> None))"

definition parse_unsigned_decimal :: "string \<Rightarrow> jsnum" where
  "parse_unsigned_decimal s =
     (if s = ''Infinity'' then PosInf
      else case split_at (\<lambda>c. c = CHR ''e'' \<or> c = CHR ''E'') s of
             (m, None) \<Rightarrow> (case parse_mantissa m of None \<Rightarrow> NaN | Some r \<Rightarrow> Fin r)
           | (m, Some e) \<Rightarrow>
               (case (parse_mantissa m, parse_exponent e) of
                  (Some r, Some k) \<Rightarrow> Fin (r * pow10 k)
                | _ \<Rightarrow> NaN))"

definition parse_prefixed :: "nat \<Rightarrow> string \<Rightarrow> jsnum" where
  "parse_prefixed b s = (case parse_digits b s of None \<Rightarrow> NaN | Some n \<Rightarrow> Fin (of_nat n))"

definition js_Number_string :: "string \<Rightarrow> jsnum" where
  "js_Number_string str =
     (let s = js_trim str in
      if s = [] then Fin 0
      else if take 2 s = ''0x'' \<or> take 2 s = ''0X'' then parse_prefixed 16 (drop 2 s)
      else if take 2 s = ''0o'' \<or> take 2 s = ''0O'' then parse_prefixed 8 (drop 2 s)
      else if take 2 s = ''0b'' \<or> take 2 s = ''0B'' then parse_prefixed 2 (drop 2 s)
      else if hd s = CHR ''+'' then parse_unsigned_decimal (tl s)
      else if hd s = CHR ''-'' then js_neg (parse_unsigned_decimal (tl s))
      else parse_unsigned_decimal s)"

text \<open>
  The POST body is read with \<open>JSON.parse\<close>; its result is a JSON value. \<open>get_count\<close>
  is the property access \<open>j.count\<close>: a TypeError on \<open>null\<close>, \<open>undefined\<close> (here
  \<open>None\<close>) on the other primitives, on arrays and on objects without the member; the
  last of several members of the same name is the one \<open>JSON.parse\<close> keeps. \<open>truthy\<close>
  is the test that \<open>||\<close> applies. \<open>js_Number\<close> is \<open>Number\<close> on such a value: an
  array converts through its string, which is empty for \<open>[]\<close>, the string of its element
  for one element (empty for \<open>null\<close>) and contains a comma, hence is no number, for two
  or more; an object converts through \<open>[object Object]\<close>. An object that has a member
  of its own named \<open>toString\<close> (never a function in a JSON value) has no usable
  conversion to a string: \<open>Number\<close> of it, and of an array that holds it at any depth,
  throws a TypeError; \<open>string_throws\<close> says when.
\<close>

datatype json =
    JNull
  | JBool bool
  | JNum jsnum
  | JStr string
  | JArr "json list"
  | JObj "(string \<times> json) list"

datatype error = WriteError | TypeError

definition get_count :: "json \<Rightarrow> error + json option" where
  "get_count j =
     (case j of
        JNull \<Rightarrow> Inl TypeError
      | JObj kvs \<Rightarrow> Inr (map_of (rev kvs) ''count'')
      | _ \<Rightarrow> Inr None)"

fun truthy :: "json \<Rightarrow> bool" where
  "truthy JNull = False"
| "truthy (JBool b) = b"
| "truthy (JNum n) = (n \<noteq> NaN \<and> n \<noteq> Fin 0)"
| "truthy (JStr s) = (s \<noteq> [])"
| "truthy (JArr xs) = True"
| "truthy (JObj kvs) = True"

fun string_throws :: "json \<Rightarrow> bool" and string_throws_list :: "json list \<Rightarrow> bool" where
  "string_throws JNull = False"
| "string_throws (JBool b) = False"
| "string_throws (JNum n) = False"
| "string_throws (JStr s) = False"
| "string_throws (JArr xs) = string_throws_list xs"
| "string_throws (JObj kvs) = (map_of kvs ''toString'' \<noteq> None)"
| "string_throws_list [] = False"
| "string_throws_list (x # xs) = (string_throws x \<or> string_throws_list xs)"

fun array_number :: "json list \<Rightarrow> jsnum" where
  "array_number [] = Fin 0"
| "array_number [JNull] = Fin 0"
| "array_number [JBool b] = NaN"
| "array_number [JNum n] = n"
| "array_number [JStr s] = js_Number_string s"
| "array_number [JArr ys] = array_number ys"
| "array_number [JObj kvs] = NaN"
| "array_number (x # y # zs) = NaN"

fun js_Number :: "json \<Rightarrow> error + jsnum" where
  "js_Number JNull = Inr (Fin 0)"
| "js_Number (JBool b) = Inr (if b then Fin 1 else Fin 0)"
| "js_Number (JNum n) = Inr n"
| "js_Number (JStr s) = Inr (js_Number_string s)"
| "js_Number (JArr xs) = (if string_throws_list xs then Inl TypeError else Inr (array_number xs))"
| "js_Number (JObj kvs) = (if string_throws (JObj kvs) then Inl TypeError else Inr NaN)"

section \<open>Process state, observers and the event fan-out\<close>

text \<open>
  A work item is \<open>{ id, ts }\<close>. The fan-out serialises an object with
  \<open>JSON.stringify\<close>; every field that the demo puts into such an object is an integer,
  printed in decimal.
\<close>

record job =
  job_id :: nat
  ts :: int

definition NL :: char where
  "NL = CHR 0x0A"

definition digit_char :: "nat \<Rightarrow> char" where
  "digit_char d = ''0123456789'' ! d"

fun show_nat :: "nat \<Rightarrow> string" where
  "show_nat n = (if n < 10 then [digit_char n] else show_nat (n div 10) @ [digit_char (n mod 10)])"

declare show_nat.simps [simp del]

definition show_int :: "int \<Rightarrow> string" where
  "show_int i = (if i < 0 then CHR ''-'' # show_nat (nat (- i)) else show_nat (nat i))"

text \<open>
  The objects handed to \<open>sseSend\<close>:
  \<open>{type:"queued", id, size}\<close>, \<open>{type:"backpressure", size}\<close>,
  \<open>{type:"processed", id, latency, size}\<close> and \<open>{type:"stopped", produced, consumed, size}\<close>;
  \<open>stringify_init\<close> is the object \<open>{produced, consumed, queueSize}\<close> of the
  \<open>/events\<close> handler.
\<close>

datatype sse_obj =
    Queued nat nat
  | Backpressure nat
  | Processed nat int nat
  | Stopped nat nat nat

fun stringify :: "sse_obj \<Rightarrow> string" where
  \<open>stringify (Queued i n) =
     ''{"type":"queued","id":'' @ show_nat i @ '',"size":'' @ show_nat n @ ''}''\<close>
| \<open>stringify (Backpressure n) =
     ''{"type":"backpressure","size":'' @ show_nat n @ ''}''\<close>
| \<open>stringify (Processed i l n) =
     ''{"type":"processed","id":'' @ show_nat i @ '',"latency":'' @ show_int l
       @ '',"size":'' @ show_nat n @ ''}''\<close>
| \<open>stringify (Stopped p c n) =
     ''{"type":"stopped","produced":'' @ show_nat p @ '',"consumed":'' @ show_nat c
       @ '',"size":'' @ show_nat n @ ''}''\<close>

definition stringify_init :: "nat \<Rightarrow> nat \<Rightarrow> nat \<Rightarrow> string" where
  \<open>stringify_init p c n =
     ''{"produced":'' @ show_nat p @ '',"consumed":'' @ show_nat c
       @ '',"queueSize":'' @ show_nat n @ ''}''\<close>

text \<open>
  An observer is the response object \<open>res\<close> of a \<open>/events\<close> request. The response
  objects live in a store indexed by their identity; \<open>subscribers\<close> is the \<open>Set\<close> of
  the registered ones, kept in insertion order, which is the order in which a \<open>Set\<close>
  is iterated. \<open>wire\<close> is the text written to the response so far. A response whose
  connection is gone is \<open>closed\<close>: \<open>res.write\<close> on it writes nothing and fails,
  here by throwing, the case that the \<open>try\<close> of \<open>sseSend\<close> is written for (a
  runtime that reports the failure by returning false leaves the same state).

  A pending \<open>setTimeout\<close> is a timer: \<open>ConsumeTimer d\<close> is
  \<open>setTimeout(consume, consumePollMs)\<close> with the delay \<open>d\<close> read when it was
  scheduled; \<open>WorkTimer job d\<close> is the callback that completes \<open>job\<close> after the work
  time \<open>d\<close>. \<open>emitted\<close> records the objects passed to \<open>sseSend\<close>, in order; the
  program has no such variable, it is there so that theorems can speak of the events
  emitted whether or not an observer is listening.
\<close>

record conn =
  closed :: bool
  wire :: string

datatype timer = ConsumeTimer jsnum | WorkTimer job rat

record state =
  queue :: "job Queue"
  produced :: nat
  consumed :: nat
  running :: bool
  consumePollMs :: jsnum
  subscribers :: "nat list"
  conns :: "nat \<Rightarrow> conn option"
  next_res :: nat
  timers :: "timer list"
  emitted :: "sse_obj list"

definition initial :: "nat \<Rightarrow> state" where
  "initial cap =
     \<lparr>queue = Queue_new cap, produced = 0, consumed = 0, running = True,
      consumePollMs = Fin 50, subscribers = [], conns = (\<lambda>r. None), next_res = 0,
      timers = [], emitted = []\<rparr>"

text \<open>
  \<^verbatim>\<open>
  function sseSend(obj){
      const line = `data: ${JSON.stringify(obj)}\n\n`;
      for (const res of subscribers){ try { res.write(line); } catch{} }
  }
  \<close>
\<close>

definition res_write :: "conn \<Rightarrow> string \<Rightarrow> error + conn" where
  "res_write c chunk =
     (if closed c then Inl WriteError else Inr (c\<lparr>wire := wire c @ chunk\<rparr>))"

fun fan_out :: "string \<Rightarrow> nat list \<Rightarrow> (nat \<Rightarrow> conn option) \<Rightarrow> (nat \<Rightarrow> conn option)" where
  "fan_out line [] cs = cs"
| "fan_out line (r # rs) cs =
     (case cs r of
        None \<Rightarrow> fan_out line rs cs
      | Some c \<Rightarrow>
          (case res_write c line of
             Inl e \<Rightarrow> fan_out line rs cs
           | Inr c' \<Rightarrow> fan_out line rs (cs(r \<mapsto> c'))))"

definition sseSend :: "sse_obj \<Rightarrow> state \<Rightarrow> state" where
  "sseSend obj s =
     s\<lparr>conns := fan_out (''data: '' @ stringify obj @ [NL, NL]) (subscribers s) (conns s),
       emitted := emitted s @ [obj]\<rparr>"

text \<open>
  The \<open>/events\<close> handler: a new response object receives \<open>event: init\<close> and the
  current counters in two writes and is then added to the set.
  \<^verbatim>\<open>
  res.write(`event: init\n`);
  res.write(`data: ${JSON.stringify({ produced, consumed, queueSize: queue.size() })}\n\n`);
  subscribers.add(res);
  req.on("close",()=>{ subscribers.delete(res); });
  \<close>
\<close>

definition set_add :: "nat \<Rightarrow> nat list \<Rightarrow> nat list" where
  "set_add r rs = (if r \<in> set rs then rs else rs @ [r])"

definition events_handler :: "state \<Rightarrow> nat \<times> state" where
  "events_handler s =
     (let r = next_res s;
          c = \<lparr>closed = False,
               wire = (''event: init'' @ [NL])
                 @ (''data: '' @ stringify_init (produced s) (consumed s) (Queue_size (queue s))
                      @ [NL, NL])\<rparr>
      in (r, s\<lparr>conns := (conns s)(r \<mapsto> c), subscribers := set_add r (subscribers s),
               next_res := r + 1\<rparr>))"

definition req_close :: "nat \<Rightarrow> state \<Rightarrow> state" where
  "req_close r s = s\<lparr>subscribers := removeAll r (subscribers s)\<rparr>"

definition res_broken :: "nat \<Rightarrow> state \<Rightarrow> state" where
  "res_broken r s =
     (case conns s r of
        None \<Rightarrow> s
      | Some c \<Rightarrow> s\<lparr>conns := (conns s)(r \<mapsto> c\<lparr>closed := True\<rparr>)\<rparr>)"

section \<open>The consumer loop\<close>

text \<open>
  \<^verbatim>\<open>
  function consume() {
      if (!running) return;
      const job = queue.shift();
      if (job) {
          const workTime = 50 + Math.random() * 150;
          setTimeout(() => {
              consumed++;
              const latency = Date.now() - job.ts;
              sseSend({ type:"processed", id: job.id, latency, size: queue.size() });
              consume();
          }, workTime);
      } else {
          setTimeout(consume, consumePollMs);
      }
  }
  \<close>
  \<open>rnd\<close> is the value of \<open>Math.random()\<close> and \<open>now\<close> that of \<open>Date.now()\<close>, both
  supplied by the environment. \<open>work_done\<close> is the callback of the work timer.
\<close>

definition consume :: "rat \<Rightarrow> state \<Rightarrow> state" where
  "consume rnd s =
     (if \<not> running s then s
      else case Queue_shift (queue s) of
             (Some j, q') \<Rightarrow>
               s\<lparr>queue := q', timers := timers s @ [WorkTimer j (50 + rnd * 150)]\<rparr>
           | (None, q') \<Rightarrow>
               s\<lparr>queue := q', timers := timers s @ [ConsumeTimer (consumePollMs s)]\<rparr>)"

definition work_done :: "job \<Rightarrow> int \<Rightarrow> rat \<Rightarrow> state \<Rightarrow> state" where
  "work_done j now rnd s =
     (let s1 = s\<lparr>consumed := consumed s + 1\<rparr>;
          latency = now - ts j;
          s2 = sseSend (Processed (job_id j) latency (Queue_size (queue s1))) s1
      in consume rnd s2)"

definition fire_timer :: "nat \<Rightarrow> int \<Rightarrow> rat \<Rightarrow> state \<Rightarrow> state" where
  "fire_timer k now rnd s =
     (if k < length (timers s) then
        (let s1 = s\<lparr>timers := take k (timers s) @ drop (Suc k) (timers s)\<rparr>
         in case timers s ! k of
              ConsumeTimer d \<Rightarrow> consume rnd s1
            | WorkTimer j d \<Rightarrow> work_done j now rnd s1)
      else s)"

text \<open>
  The module ends with a call of \<open>consume()\<close>; the queue is empty then, so the call
  draws no random number and schedules the first poll.
\<close>

definition boot :: "nat \<Rightarrow> state" where
  "boot cap = consume 0 (initial cap)"

section \<open>The producer endpoint\<close>

text \<open>
  \<^verbatim>\<open>
  const addJobs = (count)=>{
      let accepted = 0; let rejected = 0;
      for (let i=0;i<count;i++){
          if (queue.push({ id: ++produced, ts: Date.now() })){
              accepted++; sseSend({ type:"queued", id: produced, size: queue.size() });
          } else { rejected++; sseSend({ type:"backpressure", size: queue.size() }); break; }
      }
      return { accepted, rejected, queueSize: queue.size(), produced };
  };
  \<close>
  \<open>push_next now\<close> is the condition \<open>queue.push({ id: ++produced, ts: Date.now() })\<close>
  of one iteration: \<open>++produced\<close> is evaluated to build the argument of \<open>push\<close>, hence
  before the queue decides. \<open>clock i\<close> is the value of \<open>Date.now()\<close> in iteration
  \<open>i\<close>. The
  loop goes on only after an accepted push, which takes one of the free places of the
  queue, so it ends for every \<open>count\<close>, the infinite one too.
\<close>

record enqueue_response =
  accepted :: nat
  rejected :: nat
  queueSize :: nat
  r_produced :: nat

definition push_next :: "int \<Rightarrow> state \<Rightarrow> bool \<times> state" where
  "push_next now s =
     (let s1 = s\<lparr>produced := produced s + 1\<rparr>;
          pushed = Queue_push (queue s1) \<lparr>job_id = produced s1, ts = now\<rparr>
      in (fst pushed, s1\<lparr>queue := snd pushed\<rparr>))"

function addJobs_loop ::
  "jsnum \<Rightarrow> (nat \<Rightarrow> int) \<Rightarrow> nat \<Rightarrow> nat \<Rightarrow> nat \<Rightarrow> state \<Rightarrow> nat \<times> nat \<times> state" where
  "addJobs_loop count clock i acc rej s =
     (if js_less (Fin (of_nat i)) count then
        (if fst (push_next (clock i) s)
         then addJobs_loop count clock (i + 1) (acc + 1) rej
                (sseSend (Queued (produced (snd (push_next (clock i) s)))
                                 (Queue_size (queue (snd (push_next (clock i) s)))))
                   (snd (push_next (clock i) s)))
         else (acc, rej + 1,
               sseSend (Backpressure (Queue_size (queue (snd (push_next (clock i) s)))))
                 (snd (push_next (clock i) s))))
      else (acc, rej, s))"
  by pat_completeness auto
termination
proof (relation "measure (\<lambda>(count, clock, i, acc, rej, s).
                   maxSize (queue s) - length (items (queue s)))")
  show "wf (measure (\<lambda>(count, clock, i, acc, rej, s).
               maxSize (queue s) - length (items (queue s))))"
    by simp
next
  fix count :: jsnum and clock :: "nat \<Rightarrow> int" and i acc rej :: nat and s :: state
  assume "fst (push_next (clock i) s)"
  then show "((count, clock, i + 1, acc + 1, rej,
                sseSend (Queued (produced (snd (push_next (clock i) s)))
                                (Queue_size (queue (snd (push_next (clock i) s)))))
                  (snd (push_next (clock i) s))),
              (count, clock, i, acc, rej, s))
             \<in> measure (\<lambda>(count, clock, i, acc, rej, s).
                   maxSize (queue s) - length (items (queue s)))"
    by (auto simp: push_next_def Queue_push_def sseSend_def Let_def split: if_splits)
qed

declare addJobs_loop.simps [simp del]

definition addJobs :: "jsnum \<Rightarrow> (nat \<Rightarrow> int) \<Rightarrow> state \<Rightarrow> enqueue_response \<times> state" where
  "addJobs count clock s =
     (case addJobs_loop count clock 0 0 0 s of
        (acc, rej, s') \<Rightarrow>
          (\<lparr>accepted = acc, rejected = rej, queueSize = Queue_size (queue s'),
            r_produced = produced s'\<rparr>, s'))"

text \<open>
  \<^verbatim>\<open>
  if (req.method === 'GET'){
      const count = Math.max(1, Number(url.searchParams.get('count') || 1));
      return respond(addJobs(count));
  }
  if (req.method === 'POST'){
      let body=''; req.on('data', c=> body+=c); req.on('end', ()=>{
          let count=1; try{ const j=JSON.parse(body||'{}'); count = Number(j.count||1); }catch{}
          respond(addJobs(Math.max(1, count)));
      });
  }
  \<close>
  \<open>searchParams.get\<close> gives \<open>null\<close> (\<open>None\<close>) or the text of the parameter; \<open>||\<close>
  replaces \<open>null\<close> and the empty string by 1. For POST, the argument is the result of
  \<open>JSON.parse(body || '{}')\<close>, \<open>None\<close> when it throws; every exception of the
  \<open>try\<close> block (of \<open>JSON.parse\<close>, of \<open>j.count\<close>, of \<open>Number\<close>) leaves
  \<open>count\<close> at 1.
\<close>

definition count_of_query :: "string option \<Rightarrow> jsnum" where
  "count_of_query p =
     js_max (Fin 1)
       (case p of
          None \<Rightarrow> Fin 1
        | Some c \<Rightarrow> if c = [] then Fin 1 else js_Number_string c)"

definition count_of_body :: "json option \<Rightarrow> jsnum" where
  "count_of_body parsed =
     js_max (Fin 1)
       (case parsed of
          None \<Rightarrow> Fin 1
        | Some j \<Rightarrow>
            (case get_count j of
               Inl e \<Rightarrow> Fin 1
             | Inr None \<Rightarrow> Fin 1
             | Inr (Some v) \<Rightarrow>
                 if truthy v then (case js_Number v of Inl e \<Rightarrow> Fin 1 | Inr n \<Rightarrow> n)
                 else Fin 1))"

definition enqueue_get ::
  "string option \<Rightarrow> (nat \<Rightarrow> int) \<Rightarrow> state \<Rightarrow> enqueue_response \<times> state" where
  "enqueue_get p clock s = addJobs (count_of_query p) clock s"

definition enqueue_post ::
  "json option \<Rightarrow> (nat \<Rightarrow> int) \<Rightarrow> state \<Rightarrow> enqueue_response \<times> state" where
  "enqueue_post parsed clock s = addJobs (count_of_body parsed) clock s"

section \<open>The control surface and shutdown\<close>

text \<open>
  \<^verbatim>\<open>
  const action = url.searchParams.get("action");
  if (action === "pause") { running = false; }
  else if (action === "resume") { if (!running){ running = true; consume(); } }
  else if (action === "set") {
      const c = url.searchParams.get("consumeMs");
      if (c) consumePollMs = Math.max(1, Number(c));
  }
  res.end(JSON.stringify({ running, consumePollMs }));
  \<close>
\<close>

record control_response =
  c_running :: bool
  c_consumePollMs :: jsnum

definition control_state :: "string option \<Rightarrow> string option \<Rightarrow> rat \<Rightarrow> state \<Rightarrow> state" where
  "control_state action consumeMs rnd s =
     (if action = Some ''pause'' then s\<lparr>running := False\<rparr>
      else if action = Some ''resume'' then
        (if \<not> running s then consume rnd (s\<lparr>running := True\<rparr>) else s)
      else if action = Some ''set'' then
        (case consumeMs of
           None \<Rightarrow> s
         | Some c \<Rightarrow>
             if c \<noteq> [] then s\<lparr>consumePollMs := js_max (Fin 1) (js_Number_string c)\<rparr> else s)
      else s)"

definition control_handler ::
  "string option \<Rightarrow> string option \<Rightarrow> rat \<Rightarrow> state \<Rightarrow> control_response \<times> state" where
  "control_handler action consumeMs rnd s =
     (let s' = control_state action consumeMs rnd s
      in (\<lparr>c_running = running s', c_consumePollMs = consumePollMs s'\<rparr>, s'))"

text \<open>
  \<^verbatim>\<open>
  process.on("SIGINT", () => {
      running = false;
      sseSend({ type:"stopped", produced, consumed, size: queue.size() });
      for (const res of subscribers){ try { res.end(); } catch{} }
  });
  \<close>
\<close>

definition res_end :: "conn \<Rightarrow> error + conn" where
  "res_end c = (if closed c then Inl WriteError else Inr (c\<lparr>closed := True\<rparr>))"

fun end_all :: "nat list \<Rightarrow> (nat \<Rightarrow> conn option) \<Rightarrow> (nat \<Rightarrow> conn option)" where
  "end_all [] cs = cs"
| "end_all (r # rs) cs =
     (case cs r of
        None \<Rightarrow> end_all rs cs
      | Some c \<Rightarrow>
          (case res_end c of
             Inl e \<Rightarrow> end_all rs cs
           | Inr c' \<Rightarrow> end_all rs (cs(r \<mapsto> c'))))"

definition sigint :: "state \<Rightarrow> state" where
  "sigint s =
     (let s1 = s\<lparr>running := False\<rparr>;
          s2 = sseSend (Stopped (produced s1) (consumed s1) (Queue_size (queue s1))) s1
      in s2\<lparr>conns := end_all (subscribers s2) (conns s2)\<rparr>)"

section \<open>Runs of the process\<close>

text \<open>
  The process is single-threaded: it handles one request, timer or signal at a time, to
  completion. An event is one of these, with what the environment supplies to it. A
  timer event names the pending timer that fires by its position; a position that holds
  no timer is an event that cannot happen and changes nothing. The requests that only
  read the state (\<open>/health\<close>, \<open>OPTIONS\<close>, unknown paths) are left out.
\<close>

datatype event =
    GetEvents
  | ReqClose nat
  | ResBroken nat
  | Control "string option" "string option" rat
  | EnqueueGet "string option" "nat \<Rightarrow> int"
  | EnqueuePost "json option" "nat \<Rightarrow> int"
  | TimerFire nat int rat
  | Sigint

fun step :: "event \<Rightarrow> state \<Rightarrow> state" where
  "step GetEvents s = snd (events_handler s)"
| "step (ReqClose r) s = req_close r s"
| "step (ResBroken r) s = res_broken r s"
| "step (Control action consumeMs rnd) s = snd (control_handler action consumeMs rnd s)"
| "step (EnqueueGet p clock) s = snd (enqueue_get p clock s)"
| "step (EnqueuePost parsed clock) s = snd (enqueue_post parsed clock s)"
| "step (TimerFire k now rnd) s = fire_timer k now rnd s"
| "step Sigint s = sigint s"

fun run :: "event list \<Rightarrow> state \<Rightarrow> state" where
  "run [] s = s"
| "run (e # es) s = run es (step e s)"

section \<open>Observations on a state\<close>

text \<open>
  An item is in flight when it has been dequeued and its work timer is still pending.
  \<open>consumer_loops\<close> counts the pending timers: every activation of \<open>consume\<close> that
  does not return at once leaves exactly one timer behind, so each pending timer is one
  live consumer loop.
\<close>

fun is_work :: "timer \<Rightarrow> bool" where
  "is_work (WorkTimer j d) = True"
| "is_work (ConsumeTimer d) = False"

definition in_flight :: "state \<Rightarrow> nat" where
  "in_flight s = length (filter is_work (timers s))"

definition consumer_loops :: "state \<Rightarrow> nat" where
  "consumer_loops s = length (timers s)"

fun is_processed :: "sse_obj \<Rightarrow> bool" where
  "is_processed (Processed i l n) = True"
| "is_processed obj = False"

fun is_queued :: "sse_obj \<Rightarrow> bool" where
  "is_queued (Queued i n) = True"
| "is_queued obj = False"

fun is_backpressure :: "sse_obj \<Rightarrow> bool" where
  "is_backpressure (Backpressure n) = True"
| "is_backpressure obj = False"

definition processed_events :: "state \<Rightarrow> nat" where
  "processed_events s = length (filter is_processed (emitted s))"

definition queued_events :: "state \<Rightarrow> nat" where
  "queued_events s = length (filter is_queued (emitted s))"

definition wire_of :: "nat \<Rightarrow> state \<Rightarrow> string" where
  "wire_of r s = (case conns s r of None \<Rightarrow> [] | Some c \<Rightarrow> wire c)"

fun is_resume :: "event \<Rightarrow> bool" where
  "is_resume (Control action consumeMs rnd) = (action = Some ''resume'')"
| "is_resume e = False"

fun no_resume :: "event list \<Rightarrow> bool" where
  "no_resume [] = True"
| "no_resume (e # es) = (\<not> is_resume e \<and> no_resume es)"

text \<open>
  \<open>rejected_by e s\<close> is the \<open>rejected\<close> count in the response to an enqueue request
  \<open>e\<close> handled in state \<open>s\<close> (0 for the other events); \<open>no_rejects es s\<close> says that
  no request of the run \<open>es\<close> from \<open>s\<close> meets a full queue.
\<close>

fun rejected_by :: "event \<Rightarrow> state \<Rightarrow> nat" where
  "rejected_by (EnqueueGet p clock) s = rejected (fst (enqueue_get p clock s))"
| "rejected_by (EnqueuePost parsed clock) s = rejected (fst (enqueue_post parsed clock s))"
| "rejected_by e s = 0"

fun no_rejects :: "event list \<Rightarrow> state \<Rightarrow> bool" where
  "no_rejects [] s = True"
| "no_rejects (e # es) s = (rejected_by e s = 0 \<and> no_rejects es (step e s))"

text \<open>
  What an observer reads off its stream. The stream is cut into lines at the newline
  characters (an unfinished last line is not yet seen); \<open>event: t\<close> sets the type of
  the event being assembled, \<open>data: d\<close> adds a data line to it, and an empty line
  delivers the event, of type \<open>message\<close> unless a type was set, if it has any data.
\<close>

fun split_lines :: "string \<Rightarrow> string \<Rightarrow> string list" where
  "split_lines acc [] = []"
| "split_lines acc (c # cs) =
     (if c = NL then acc # split_lines [] cs else split_lines (acc @ [c]) cs)"

fun strip_prefix :: "string \<Rightarrow> string \<Rightarrow> string option" where
  "strip_prefix [] s = Some s"
| "strip_prefix (p # ps) [] = None"
| "strip_prefix (p # ps) (c # cs) = (if p = c then strip_prefix ps cs else None)"

fun sse_dispatch :: "string \<Rightarrow> string list \<Rightarrow> string list \<Rightarrow> (string \<times> string list) list" where
  "sse_dispatch ty dat [] = []"
| "sse_dispatch ty dat (l # ls) =
     (if l = [] then
        (if dat = [] then sse_dispatch [] [] ls
         else (if ty = [] then ''message'' else ty, dat) # sse_dispatch [] [] ls)
      else case strip_prefix ''event: '' l of
             Some v \<Rightarrow> sse_dispatch v dat ls
           | None \<Rightarrow>
               (case strip_prefix ''data: '' l of
                  Some v \<Rightarrow> sse_dispatch ty (dat @ [v]) ls
                | None \<Rightarrow> sse_dispatch ty dat ls))"

definition sse_events :: "string \<Rightarrow> (string \<times> string list) list" where
  "sse_events w = sse_dispatch [] [] (split_lines [] w)"

text \<open>
  What an observer finds in the data of an event. \<open>read_init\<close> reads the text
  \<open>{"produced":p,"consumed":c,"queueSize":n}\<close> back into the three numbers, and
  \<open>read_queued\<close> reads \<open>{"type":"queued","id":i,"size":n}\<close> back into its two;
  both give \<open>None\<close> on any other text. \<open>read_events\<close> is the sequence of events
  read off a stream, each with what its data says.
\<close>

definition read_init :: "string \<Rightarrow> (nat \<times> nat \<times> nat) option" where
  \<open>read_init j =
     (case strip_prefix ''{"produced":'' j of
        None \<Rightarrow> None
      | Some r1 \<Rightarrow>
          (case split_at (\<lambda>c. c = CHR '','') r1 of
             (p, None) \<Rightarrow> None
           | (p, Some r2) \<Rightarrow>
               (case strip_prefix ''"consumed":'' r2 of
                  None \<Rightarrow> None
                | Some r3 \<Rightarrow>
                    (case split_at (\<lambda>c. c = CHR '','') r3 of
                       (c, None) \<Rightarrow> None
                     | (c, Some r4) \<Rightarrow>
                         (case strip_prefix ''"queueSize":'' r4 of
                            None \<Rightarrow> None
                          | Some r5 \<Rightarrow>
                              (case split_at (\<lambda>c. c = CHR ''}'') r5 of
                                 (n, None) \<Rightarrow> None
                               | (n, Some r6) \<Rightarrow>
                                   (if r6 \<noteq> [] then None
                                    else case (parse_digits 10 p, parse_digits 10 c,
                                               parse_digits 10 n) of
                                           (Some a, Some b, Some d) \<Rightarrow> Some (a, b, d)
                                         | _ \<Rightarrow> None)))))))\<close>

definition read_queued :: "string \<Rightarrow> (nat \<times> nat) option" where
  \<open>read_queued j =
     (case strip_prefix ''{"type":"queued","id":'' j of
        None \<Rightarrow> None
      | Some r1 \<Rightarrow>
          (case split_at (\<lambda>c. c = CHR '','') r1 of
             (i, None) \<Rightarrow> None
           | (i, Some r2) \<Rightarrow>
               (case strip_prefix ''"size":'' r2 of
                  None \<Rightarrow> None
                | Some r3 \<Rightarrow>
                    (case split_at (\<lambda>c. c = CHR ''}'') r3 of
                       (n, None) \<Rightarrow> None
                     | (n, Some r4) \<Rightarrow>
                         (if r4 \<noteq> [] then None
                          else case (parse_digits 10 i, parse_digits 10 n) of
                                 (Some a, Some b) \<Rightarrow> Some (a, b)
                               | _ \<Rightarrow> None)))))\<close>

datatype observed =
    SawInit nat nat nat
  | SawQueued nat nat
  | SawOther string "string list"

definition read_event :: "string \<times> string list \<Rightarrow> observed" where
  "read_event e =
     (case e of
        (ty, [j]) \<Rightarrow>
          (if ty = ''init'' then
             (case read_init j of
                Some (p, c, n) \<Rightarrow> SawInit p c n
              | None \<Rightarrow> SawOther ty [j])
           else if ty = ''message'' then
             (case read_queued j of
                Some (i, n) \<Rightarrow> SawQueued i n
              | None \<Rightarrow> SawOther ty [j])
           else SawOther ty [j])
      | (ty, dat) \<Rightarrow> SawOther ty dat)"

definition read_events :: "string \<Rightarrow> observed list" where
  "read_events w = map read_event (sse_events w)"

text \<open>A clock for the examples: \<open>Date.now()\<close> returns 1000 plus the iteration number.\<close>

definition clock0 :: "nat \<Rightarrow> int" where
  "clock0 i = 1000 + int i"

text \<open>
  \<open>conserved\<close> is the balance of the counters: every produced item is consumed, in the
  queue or in flight, and each counter equals the number of its events. \<open>subs_ok\<close>
  says that the set of observers holds no response twice and only responses that exist.
\<close>

definition conserved :: "state \<Rightarrow> bool" where
  "conserved s =
     (produced s = consumed s + Queue_size (queue s) + in_flight s
      \<and> queued_events s = produced s
      \<and> processed_events s = consumed s)"

definition subs_ok :: "state \<Rightarrow> bool" where
  "subs_ok s = (distinct (subscribers s) \<and> list_all (\<lambda>r. r < next_res s) (subscribers s))"

section \<open>Properties of the queue\<close>

lemma Queue_push_maxSize: "maxSize (snd (Queue_push q x)) = maxSize q"
  by (simp add: Queue_push_def)

lemma Queue_shift_maxSize: "maxSize (snd (Queue_shift q)) = maxSize q"
  by (simp add: Queue_shift_def split: list.split)

lemma Queue_push_bounded:
  "Queue_size q \<le> maxSize q \<Longrightarrow> Queue_size (snd (Queue_push q x)) \<le> maxSize q"
  by (simp add: Queue_push_def Queue_size_def)

lemma Queue_shift_bounded:
  "Queue_size q \<le> maxSize q \<Longrightarrow> Queue_size (snd (Queue_shift q)) \<le> maxSize q"
  by (auto simp: Queue_shift_def Queue_size_def split: list.split)

lemma queue_run_maxSize: "maxSize (queue_run ops q) = maxSize q"
proof (induction ops q rule: queue_run.induct)
  case (1 q)
  show ?case by simp
next
  case (2 x ops q)
  then show ?case by (simp add: Queue_push_maxSize)
next
  case (3 ops q)
  then show ?case by (simp add: Queue_shift_maxSize)
qed

lemma queue_run_bounded:
  "Queue_size q \<le> maxSize q \<Longrightarrow> Queue_size (queue_run ops q) \<le> maxSize q"
proof (induction ops q rule: queue_run.induct)
  case (1 q)
  then show ?case by simp
next
  case (2 x ops q)
  from 2 have "Queue_size (queue_run ops (snd (Queue_push q x))) \<le> maxSize (snd (Queue_push q x))"
    by (simp add: Queue_push_bounded Queue_push_maxSize)
  then show ?case by (simp add: Queue_push_maxSize)
next
  case (3 ops q)
  from 3 have "Queue_size (queue_run ops (snd (Queue_shift q))) \<le> maxSize (snd (Queue_shift q))"
    by (simp add: Queue_shift_bounded Queue_shift_maxSize)
  then show ?case by (simp add: Queue_shift_maxSize)
qed

lemma fifo_general:
  "items q @ accepted_of ops q = dequeued_of ops q @ items (queue_run ops q)"
proof (induction ops q rule: queue_run.induct)
  case (1 q)
  show ?case by simp
next
  case (2 x ops q)
  then show ?case
    by (cases "maxSize q \<le> length (items q)") (simp_all add: Queue_push_def)
next
  case (3 ops q)
  then show ?case by (cases "items q") (simp_all add: Queue_shift_def)
qed

text \<open>
  C1 (capacity invariant). After any sequence of \<open>push\<close> calls (and of \<open>shift\<close>
  calls between them) on a queue constructed with capacity \<open>cap\<close>, the size is at most
  \<open>cap\<close>; when the size equals the capacity, \<open>push\<close> returns false and leaves the
  queue as it is; when the size is below the capacity, \<open>push\<close> returns true and the
  item is appended at the tail.
\<close>

theorem capacity_invariant:
  fixes ops :: "'a queue_op list" and x :: 'a and cap :: nat
  shows "Queue_size (queue_run ops (Queue_new cap)) \<le> cap
       \<and> (Queue_size (queue_run ops (Queue_new cap)) = cap \<longrightarrow>
            Queue_push (queue_run ops (Queue_new cap)) x = (False, queue_run ops (Queue_new cap)))
       \<and> (Queue_size (queue_run ops (Queue_new cap)) < cap \<longrightarrow>
            Queue_push (queue_run ops (Queue_new cap)) x
              = (True, (queue_run ops (Queue_new cap))
                         \<lparr>items := items (queue_run ops (Queue_new cap)) @ [x]\<rparr>)
          \<and> Queue_size (snd (Queue_push (queue_run ops (Queue_new cap)) x))
              = Queue_size (queue_run ops (Queue_new cap)) + 1)"
proof -
  define q where "q = queue_run ops (Queue_new cap)"
  have m: "maxSize q = cap"
    unfolding q_def by (simp add: queue_run_maxSize Queue_new_def)
  have "Queue_size (Queue_new cap :: 'a Queue) \<le> maxSize (Queue_new cap :: 'a Queue)"
    by (simp add: Queue_size_def Queue_new_def)
  then have "Queue_size q \<le> maxSize (Queue_new cap :: 'a Queue)"
    unfolding q_def by (rule queue_run_bounded)
  then have b: "Queue_size q \<le> cap"
    by (simp add: Queue_new_def)
  have "Queue_size q \<le> cap
       \<and> (Queue_size q = cap \<longrightarrow> Queue_push q x = (False, q))
       \<and> (Queue_size q < cap \<longrightarrow>
            Queue_push q x = (True, q\<lparr>items := items q @ [x]\<rparr>)
          \<and> Queue_size (snd (Queue_push q x)) = Queue_size q + 1)"
    using b m by (simp add: Queue_push_def Queue_size_def)
  then show ?thesis
    unfolding q_def .
qed

theorem capacity_invariant_witness:
  "Queue_size (queue_run [Push (1::nat), Push 2, Push 3] (Queue_new 2)) = 2
   \<and> Queue_push (queue_run [Push (1::nat), Push 2, Push 3] (Queue_new 2)) 4
       = (False, queue_run [Push 1, Push 2, Push 3] (Queue_new 2))
   \<and> Queue_size (queue_run [Push (1::nat)] (Queue_new 2)) < 2
   \<and> Queue_push (queue_run [Push (1::nat)] (Queue_new 2)) 4
       = (True, \<lparr>items = [1, 4], maxSize = 2\<rparr>)"
  using capacity_invariant [of "[Push (1::nat), Push 2, Push 3]" 2 4]
    capacity_invariant [of "[Push (1::nat)]" 2 4]
  by (simp add: Queue_push_def Queue_size_def Queue_new_def)

text \<open>
  C3 (FIFO). \<open>shift\<close> on a non-empty queue removes and returns the head. For any
  sequence of calls on a new queue, the items dequeued so far followed by the items still
  in the queue are the accepted items in the order of their acceptance: the dequeued
  items are a prefix of the accepted ones, so an item accepted before another is never
  dequeued after it.
\<close>

theorem fifo_order:
  fixes ops :: "'a queue_op list"
  shows "(items q = x # xs \<longrightarrow> Queue_shift q = (Some x, q\<lparr>items := xs\<rparr>))
       \<and> dequeued_of ops (Queue_new cap) @ items (queue_run ops (Queue_new cap))
           = accepted_of ops (Queue_new cap)"
proof -
  have "items (Queue_new cap :: 'a Queue) = []"
    by (simp add: Queue_new_def)
  with fifo_general [of "Queue_new cap" ops]
  have "dequeued_of ops (Queue_new cap) @ items (queue_run ops (Queue_new cap))
          = accepted_of ops (Queue_new cap)"
    by simp
  then show ?thesis by (simp add: Queue_shift_def)
qed

theorem fifo_order_witness:
  "items \<lparr>items = [7::nat, 8], maxSize = 2\<rparr> = 7 # [8]
   \<and> Queue_shift \<lparr>items = [7::nat, 8], maxSize = 2\<rparr> = (Some 7, \<lparr>items = [8], maxSize = 2\<rparr>)
   \<and> dequeued_of [Push (7::nat), Push 8, Push 9, Shift, Push 9, Shift] (Queue_new 2) = [7, 8]
   \<and> items (queue_run [Push (7::nat), Push 8, Push 9, Shift, Push 9, Shift] (Queue_new 2)) = [9]
   \<and> accepted_of [Push (7::nat), Push 8, Push 9, Shift, Push 9, Shift] (Queue_new 2) = [7, 8, 9]"
  using fifo_order [of "\<lparr>items = [7::nat, 8], maxSize = 2\<rparr>" 7 "[8]"
      "[Push (7::nat), Push 8, Push 9, Shift, Push 9, Shift]" 2]
  by (simp add: Queue_push_def Queue_shift_def Queue_new_def)

section \<open>Effects of the operations on the state\<close>

lemma sseSend_frame [simp]:
  "queue (sseSend obj s) = queue s"
  "produced (sseSend obj s) = produced s"
  "consumed (sseSend obj s) = consumed s"
  "running (sseSend obj s) = running s"
  "consumePollMs (sseSend obj s) = consumePollMs s"
  "subscribers (sseSend obj s) = subscribers s"
  "next_res (sseSend obj s) = next_res s"
  "timers (sseSend obj s) = timers s"
  "emitted (sseSend obj s) = emitted s @ [obj]"
  by (simp_all add: sseSend_def)

lemma push_next_frame [simp]:
  "consumed (snd (push_next now s)) = consumed s"
  "running (snd (push_next now s)) = running s"
  "consumePollMs (snd (push_next now s)) = consumePollMs s"
  "subscribers (snd (push_next now s)) = subscribers s"
  "next_res (snd (push_next now s)) = next_res s"
  "timers (snd (push_next now s)) = timers s"
  "emitted (snd (push_next now s)) = emitted s"
  "conns (snd (push_next now s)) = conns s"
  "produced (snd (push_next now s)) = produced s + 1"
  "maxSize (queue (snd (push_next now s))) = maxSize (queue s)"
  by (simp_all add: push_next_def Let_def Queue_push_def)

lemma push_next_items:
  "items (queue (snd (push_next now s))) =
     (if fst (push_next now s) then items (queue s) @ [\<lparr>job_id = produced s + 1, ts = now\<rparr>]
      else items (queue s))"
  by (simp add: push_next_def Let_def Queue_push_def)

lemma push_next_ok:
  "fst (push_next now s) = (length (items (queue s)) < maxSize (queue s))"
  by (auto simp add: push_next_def Let_def Queue_push_def)

lemma addJobs_loop_frame:
  "consumed (snd (snd (addJobs_loop count clock i acc rej s))) = consumed s
   \<and> running (snd (snd (addJobs_loop count clock i acc rej s))) = running s
   \<and> consumePollMs (snd (snd (addJobs_loop count clock i acc rej s))) = consumePollMs s
   \<and> subscribers (snd (snd (addJobs_loop count clock i acc rej s))) = subscribers s
   \<and> next_res (snd (snd (addJobs_loop count clock i acc rej s))) = next_res s
   \<and> timers (snd (snd (addJobs_loop count clock i acc rej s))) = timers s
   \<and> maxSize (queue (snd (snd (addJobs_loop count clock i acc rej s)))) = maxSize (queue s)"
proof (induction count clock i acc rej s rule: addJobs_loop.induct)
  case (1 count clock i acc rej s)
  show ?case
  proof (cases "js_less (Fin (of_nat i)) count")
    case False
    then show ?thesis by (subst addJobs_loop.simps, simp)+
  next
    case True
    show ?thesis
    proof (cases "fst (push_next (clock i) s)")
      case ok: True
      from 1 [OF True ok] show ?thesis
        using True ok by (simp add: addJobs_loop.simps [of count clock i acc rej s])
    next
      case full: False
      then show ?thesis
        using True by (simp add: addJobs_loop.simps [of count clock i acc rej s])
    qed
  qed
qed

lemma addJobs_loop_counts:
  "acc \<le> fst (addJobs_loop count clock i acc rej s)
   \<and> rej \<le> fst (snd (addJobs_loop count clock i acc rej s))
   \<and> produced (snd (snd (addJobs_loop count clock i acc rej s)))
       = produced s + (fst (addJobs_loop count clock i acc rej s) - acc)
           + (fst (snd (addJobs_loop count clock i acc rej s)) - rej)
   \<and> Queue_size (queue (snd (snd (addJobs_loop count clock i acc rej s))))
       = Queue_size (queue s) + (fst (addJobs_loop count clock i acc rej s) - acc)
   \<and> queued_events (snd (snd (addJobs_loop count clock i acc rej s)))
       = queued_events s + (fst (addJobs_loop count clock i acc rej s) - acc)
   \<and> processed_events (snd (snd (addJobs_loop count clock i acc rej s))) = processed_events s
   \<and> prefix (items (queue s)) (items (queue (snd (snd (addJobs_loop count clock i acc rej s)))))"
proof (induction count clock i acc rej s rule: addJobs_loop.induct)
  case (1 count clock i acc rej s)
  show ?case
  proof (cases "js_less (Fin (of_nat i)) count")
    case False
    then show ?thesis by (simp add: addJobs_loop.simps [of count clock i acc rej s])
  next
    case True
    show ?thesis
    proof (cases "fst (push_next (clock i) s)")
      case ok: True
      from 1 [OF True ok] show ?thesis
        using True ok
        by (auto simp add: addJobs_loop.simps [of count clock i acc rej s] push_next_items
            Queue_size_def queued_events_def processed_events_def dest: append_prefixD)
    next
      case full: False
      then show ?thesis
        using True
        by (simp add: addJobs_loop.simps [of count clock i acc rej s] push_next_items
            Queue_size_def queued_events_def processed_events_def)
    qed
  qed
qed

lemma consume_frame [simp]:
  "produced (consume rnd s) = produced s"
  "consumed (consume rnd s) = consumed s"
  "running (consume rnd s) = running s"
  "consumePollMs (consume rnd s) = consumePollMs s"
  "subscribers (consume rnd s) = subscribers s"
  "next_res (consume rnd s) = next_res s"
  "conns (consume rnd s) = conns s"
  "emitted (consume rnd s) = emitted s"
  by (simp_all add: consume_def Queue_shift_def split: list.split)

lemma consume_paused: "\<not> running s \<Longrightarrow> consume rnd s = s"
  by (simp add: consume_def)

lemma consume_balance:
  "Queue_size (queue (consume rnd s)) + in_flight (consume rnd s)
     = Queue_size (queue s) + in_flight s"
  by (simp add: consume_def Queue_shift_def Queue_size_def in_flight_def split: list.split)

lemma filter_remove_nth:
  "k < length xs \<Longrightarrow>
     length (filter P (take k xs @ drop (Suc k) xs)) + (if P (xs ! k) then 1 else 0)
       = length (filter P xs)"
proof -
  assume "k < length xs"
  then have "xs = take k xs @ xs ! k # drop (Suc k) xs"
    by (rule id_take_nth_drop)
  then have "filter P xs = filter P (take k xs @ xs ! k # drop (Suc k) xs)"
    by simp
  then show ?thesis by simp
qed

lemma work_done_frame [simp]:
  "produced (work_done j now rnd s) = produced s"
  "consumed (work_done j now rnd s) = consumed s + 1"
  "running (work_done j now rnd s) = running s"
  "consumePollMs (work_done j now rnd s) = consumePollMs s"
  "subscribers (work_done j now rnd s) = subscribers s"
  "next_res (work_done j now rnd s) = next_res s"
  "emitted (work_done j now rnd s)
     = emitted s @ [Processed (job_id j) (now - ts j) (Queue_size (queue s))]"
  by (simp_all add: work_done_def Let_def)

lemma work_done_balance:
  "Queue_size (queue (work_done j now rnd s)) + in_flight (work_done j now rnd s)
     = Queue_size (queue s) + in_flight s"
proof -
  have "in_flight (sseSend obj (s\<lparr>consumed := consumed s + 1\<rparr>)) = in_flight s" for obj
    by (simp add: in_flight_def)
  then show ?thesis
    by (simp add: work_done_def Let_def consume_balance)
qed

lemma fire_timer_conserved:
  assumes "conserved s"
  shows "conserved (fire_timer k now rnd s)"
proof (cases "k < length (timers s)")
  case False
  with assms show ?thesis by (simp add: fire_timer_def)
next
  case True
  define s1 where "s1 = s\<lparr>timers := take k (timers s) @ drop (Suc k) (timers s)\<rparr>"
  have fl: "in_flight s1 + (if is_work (timers s ! k) then 1 else 0) = in_flight s"
    using filter_remove_nth [OF True, of is_work] by (simp add: in_flight_def s1_def)
  have fr: "produced s1 = produced s" "consumed s1 = consumed s" "queue s1 = queue s"
    "emitted s1 = emitted s"
    by (simp_all add: s1_def)
  show ?thesis
  proof (cases "timers s ! k")
    case (ConsumeTimer d)
    then have eq: "fire_timer k now rnd s = consume rnd s1"
      using True by (simp add: fire_timer_def s1_def)
    from ConsumeTimer fl have "in_flight s1 = in_flight s" by simp
    with assms fr consume_balance [of rnd s1] show ?thesis
      unfolding eq conserved_def queued_events_def processed_events_def by simp
  next
    case (WorkTimer j d)
    then have eq: "fire_timer k now rnd s = work_done j now rnd s1"
      using True by (simp add: fire_timer_def s1_def)
    from WorkTimer fl have "in_flight s1 + 1 = in_flight s" by simp
    with assms fr work_done_balance [of j now rnd s1] show ?thesis
      unfolding eq conserved_def queued_events_def processed_events_def by simp
  qed
qed

lemma addJobs_conserved:
  assumes "conserved s" and "rejected (fst (addJobs count clock s)) = 0"
  shows "conserved (snd (addJobs count clock s))"
proof -
  obtain a r s' where res: "addJobs_loop count clock 0 0 0 s = (a, r, s')"
    by (cases "addJobs_loop count clock 0 0 0 s") auto
  from assms(2) res have r0: "r = 0"
    by (simp add: addJobs_def)
  from addJobs_loop_counts [of 0 count clock 0 0 s] addJobs_loop_frame [of count clock 0 0 0 s]
    res r0
  have "produced s' = produced s + a" "Queue_size (queue s') = Queue_size (queue s) + a"
    "queued_events s' = queued_events s + a" "processed_events s' = processed_events s"
    "consumed s' = consumed s" "timers s' = timers s"
    by simp_all
  with assms(1) have "conserved s'"
    by (simp add: conserved_def in_flight_def)
  with res show ?thesis by (simp add: addJobs_def)
qed

lemma control_conserved:
  assumes "conserved s"
  shows "conserved (control_state action consumeMs rnd s)"
proof -
  have r: "conserved (consume rnd (s\<lparr>running := True\<rparr>))"
    using assms consume_balance [of rnd "s\<lparr>running := True\<rparr>"]
    by (simp add: conserved_def queued_events_def processed_events_def in_flight_def)
  have p: "conserved (s\<lparr>running := False\<rparr>)"
    using assms
    by (simp add: conserved_def queued_events_def processed_events_def in_flight_def)
  have c: "conserved (s\<lparr>consumePollMs := v\<rparr>)" for v
    using assms
    by (simp add: conserved_def queued_events_def processed_events_def in_flight_def)
  show ?thesis
    using assms r p c by (simp add: control_state_def split: option.split)
qed

lemma sigint_conserved:
  assumes "conserved s"
  shows "conserved (sigint s)"
  using assms
  by (simp add: sigint_def Let_def conserved_def queued_events_def processed_events_def
      in_flight_def)

lemma step_conserved:
  assumes "conserved s" and "rejected_by e s = 0"
  shows "conserved (step e s)"
proof (cases e)
  case GetEvents
  with assms show ?thesis
    by (simp add: events_handler_def Let_def conserved_def queued_events_def
        processed_events_def in_flight_def)
next
  case (ReqClose r)
  with assms show ?thesis
    by (simp add: req_close_def conserved_def queued_events_def processed_events_def
        in_flight_def)
next
  case (ResBroken r)
  with assms show ?thesis
    by (simp add: res_broken_def conserved_def queued_events_def processed_events_def
        in_flight_def split: option.split)
next
  case (Control action consumeMs rnd)
  with assms show ?thesis
    by (simp add: control_handler_def Let_def control_conserved)
next
  case (EnqueueGet p clock)
  with assms show ?thesis
    by (simp add: enqueue_get_def addJobs_conserved)
next
  case (EnqueuePost parsed clock)
  with assms show ?thesis
    by (simp add: enqueue_post_def addJobs_conserved)
next
  case (TimerFire k now rnd)
  with assms show ?thesis
    by (simp add: fire_timer_conserved)
next
  case Sigint
  with assms show ?thesis
    by (simp add: sigint_conserved)
qed

lemma run_conserved:
  "conserved s \<Longrightarrow> no_rejects es s \<Longrightarrow> conserved (run es s)"
proof (induction es arbitrary: s)
  case Nil
  then show ?case by simp
next
  case (Cons e es)
  then show ?case by (simp add: step_conserved)
qed

lemma boot_conserved: "conserved (boot cap)"
  by (simp add: boot_def initial_def consume_def Queue_new_def Queue_shift_def conserved_def
      Queue_size_def in_flight_def queued_events_def processed_events_def)


section \<open>A paused consumer\<close>

lemma fire_timer_paused:
  assumes "\<not> running s"
  shows "\<not> running (fire_timer k now rnd s)
       \<and> consumed (fire_timer k now rnd s) + in_flight (fire_timer k now rnd s)
           = consumed s + in_flight s
       \<and> in_flight (fire_timer k now rnd s) \<le> in_flight s
       \<and> processed_events (fire_timer k now rnd s) + in_flight (fire_timer k now rnd s)
           = processed_events s + in_flight s
       \<and> queue (fire_timer k now rnd s) = queue s"
proof (cases "k < length (timers s)")
  case False
  with assms show ?thesis by (simp add: fire_timer_def)
next
  case True
  define s1 where "s1 = s\<lparr>timers := take k (timers s) @ drop (Suc k) (timers s)\<rparr>"
  have fl: "in_flight s1 + (if is_work (timers s ! k) then 1 else 0) = in_flight s"
    using filter_remove_nth [OF True, of is_work] by (simp add: in_flight_def s1_def)
  have fr: "\<not> running s1" "consumed s1 = consumed s" "queue s1 = queue s"
    "emitted s1 = emitted s"
    using assms by (simp_all add: s1_def)
  show ?thesis
  proof (cases "timers s ! k")
    case (ConsumeTimer d)
    then have eq: "fire_timer k now rnd s = s1"
      using True fr(1) by (simp add: fire_timer_def s1_def consume_paused)
    from ConsumeTimer fl have "in_flight s1 = in_flight s" by simp
    with fr show ?thesis
      unfolding eq processed_events_def by simp
  next
    case (WorkTimer j d)
    define s2 where
      "s2 = sseSend (Processed (job_id j) (now - ts j) (Queue_size (queue s1)))
              (s1\<lparr>consumed := consumed s1 + 1\<rparr>)"
    have "\<not> running s2"
      using fr(1) by (simp add: s2_def)
    then have "work_done j now rnd s1 = s2"
      by (simp add: work_done_def Let_def s2_def consume_paused)
    with WorkTimer have eq: "fire_timer k now rnd s = s2"
      using True by (simp add: fire_timer_def s1_def)
    have i2: "in_flight s2 = in_flight s1"
      by (simp add: s2_def in_flight_def)
    from WorkTimer fl have "in_flight s1 + 1 = in_flight s" by simp
    with fr i2 \<open>\<not> running s2\<close> show ?thesis
      unfolding eq processed_events_def by (simp add: s2_def)
  qed
qed

lemma addJobs_paused:
  assumes "\<not> running s"
  shows "\<not> running (snd (addJobs count clock s))
       \<and> consumed (snd (addJobs count clock s)) = consumed s
       \<and> in_flight (snd (addJobs count clock s)) = in_flight s
       \<and> processed_events (snd (addJobs count clock s)) = processed_events s
       \<and> prefix (items (queue s)) (items (queue (snd (addJobs count clock s))))"
proof -
  obtain a r s' where res: "addJobs_loop count clock 0 0 0 s = (a, r, s')"
    by (cases "addJobs_loop count clock 0 0 0 s") auto
  from addJobs_loop_counts [of 0 count clock 0 0 s] addJobs_loop_frame [of count clock 0 0 0 s]
    res assms
  have "\<not> running s'" "consumed s' = consumed s" "timers s' = timers s"
    "processed_events s' = processed_events s" "prefix (items (queue s)) (items (queue s'))"
    by simp_all
  with res show ?thesis by (simp add: addJobs_def in_flight_def)
qed

lemma step_paused:
  assumes "\<not> running s" and "\<not> is_resume e"
  shows "\<not> running (step e s)
       \<and> consumed (step e s) + in_flight (step e s) = consumed s + in_flight s
       \<and> in_flight (step e s) \<le> in_flight s
       \<and> processed_events (step e s) + in_flight (step e s)
           = processed_events s + in_flight s
       \<and> prefix (items (queue s)) (items (queue (step e s)))"
proof (cases e)
  case GetEvents
  with assms show ?thesis
    by (simp add: events_handler_def Let_def processed_events_def in_flight_def)
next
  case (ReqClose r)
  with assms show ?thesis
    by (simp add: req_close_def processed_events_def in_flight_def)
next
  case (ResBroken r)
  with assms show ?thesis
    by (simp add: res_broken_def processed_events_def in_flight_def split: option.split)
next
  case (Control action consumeMs rnd)
  with assms show ?thesis
    by (simp add: control_handler_def control_state_def Let_def processed_events_def
        in_flight_def split: option.split)
next
  case (EnqueueGet p clock)
  with assms addJobs_paused [of s "count_of_query p" clock] show ?thesis
    by (simp add: enqueue_get_def)
next
  case (EnqueuePost parsed clock)
  with assms addJobs_paused [of s "count_of_body parsed" clock] show ?thesis
    by (simp add: enqueue_post_def)
next
  case (TimerFire k now rnd)
  with assms fire_timer_paused [of s k now rnd] show ?thesis
    by simp
next
  case Sigint
  with assms show ?thesis
    by (simp add: sigint_def Let_def processed_events_def in_flight_def)
qed

lemma run_paused:
  "\<not> running s \<Longrightarrow> no_resume es \<Longrightarrow>
     \<not> running (run es s)
     \<and> consumed (run es s) + in_flight (run es s) = consumed s + in_flight s
     \<and> in_flight (run es s) \<le> in_flight s
     \<and> processed_events (run es s) + in_flight (run es s) = processed_events s + in_flight s
     \<and> prefix (items (queue s)) (items (queue (run es s)))"
proof (induction es arbitrary: s)
  case Nil
  then show ?case by simp
next
  case (Cons e es)
  from Cons.prems have ne: "\<not> is_resume e" and nes: "no_resume es"
    by simp_all
  note st = step_paused [OF Cons.prems(1) ne]
  from st have "\<not> running (step e s)" by simp
  note ih = Cons.IH [OF this nes]
  from st ih have "prefix (items (queue s)) (items (queue (run es (step e s))))"
    by (meson prefix_order.order_trans)
  with st ih show ?case by simp
qed

section \<open>The fan-out writes to every open observer\<close>

lemma fan_out_apply:
  "distinct rs \<Longrightarrow>
     fan_out line rs cs r =
       (case cs r of
          None \<Rightarrow> None
        | Some c \<Rightarrow> Some (if r \<in> set rs \<and> \<not> closed c then c\<lparr>wire := wire c @ line\<rparr> else c))"
proof (induction rs arbitrary: cs)
  case Nil
  show ?case by (simp split: option.split)
next
  case (Cons r0 rs)
  from Cons.prems have d: "distinct rs" and n: "r0 \<notin> set rs" by simp_all
  show ?case
  proof (cases "cs r0")
    case None
    with Cons.IH [OF d, of cs] show ?thesis
      by (auto split: option.split)
  next
    case (Some c0)
    show ?thesis
    proof (cases "closed c0")
      case True
      with Some Cons.IH [OF d, of cs] show ?thesis
        by (auto simp: res_write_def split: option.split)
    next
      case False
      define cs' where "cs' = cs(r0 \<mapsto> c0\<lparr>wire := wire c0 @ line\<rparr>)"
      have unfold: "fan_out line (r0 # rs) cs r = fan_out line rs cs' r"
        using Some False by (simp add: res_write_def cs'_def)
      note ih = Cons.IH [OF d, of cs']
      show ?thesis
      proof (cases "r = r0")
        case True
        have "cs' r0 = Some (c0\<lparr>wire := wire c0 @ line\<rparr>)"
          by (simp add: cs'_def)
        with ih True n have "fan_out line rs cs' r = Some (c0\<lparr>wire := wire c0 @ line\<rparr>)"
          by simp
        with unfold True Some False show ?thesis by simp
      next
        case neq: False
        then have "cs' r = cs r" by (simp add: cs'_def)
        with ih neq unfold show ?thesis by (cases "cs r") simp_all
      qed
    qed
  qed
qed

section \<open>The text on the wire\<close>

lemma digit_char_not_NL: "d < 10 \<Longrightarrow> digit_char d \<noteq> NL"
proof -
  assume "d < 10"
  then have "d \<in> {0, 1, 2, 3, 4, 5, 6, 7, 8, 9}" by auto
  then show ?thesis by (auto simp: digit_char_def NL_def)
qed

lemma show_nat_no_NL: "NL \<notin> set (show_nat n)"
proof (induction n rule: show_nat.induct)
  case (1 n)
  show ?case
  proof (cases "n < 10")
    case True
    then show ?thesis
      by (simp add: show_nat.simps [of n] digit_char_not_NL [THEN not_sym])
  next
    case False
    with 1 show ?thesis
      by (simp add: show_nat.simps [of n] digit_char_not_NL [THEN not_sym])
  qed
qed

lemma show_int_no_NL: "NL \<notin> set (show_int i)"
  using show_nat_no_NL by (simp add: show_int_def NL_def)

lemma stringify_no_NL: "NL \<notin> set (stringify obj)"
  using show_nat_no_NL show_int_no_NL by (cases obj) (simp_all add: NL_def)

lemma stringify_init_no_NL: "NL \<notin> set (stringify_init p c n)"
  using show_nat_no_NL by (simp add: stringify_init_def NL_def)

lemma digits_val_append:
  "digits_val b acc (xs @ ys) =
     (case digits_val b acc xs of None \<Rightarrow> None | Some a \<Rightarrow> digits_val b a ys)"
  by (induction xs arbitrary: acc) (auto split: option.split)

lemma digit_of_digit_char: "d < 10 \<Longrightarrow> digit_of 10 (digit_char d) = Some d"
proof -
  assume "d < 10"
  then have "d \<in> {0, 1, 2, 3, 4, 5, 6, 7, 8, 9}" by auto
  then show ?thesis by (auto simp: digit_char_def digit_of_def digit_table_def)
qed

lemma digits_val_show_nat:
  "digits_val 10 acc (show_nat n) = Some (acc * 10 ^ length (show_nat n) + n)"
proof (induction n arbitrary: acc rule: show_nat.induct)
  case (1 n)
  show ?case
  proof (cases "n < 10")
    case True
    then show ?thesis
      by (simp add: show_nat.simps [of n] digit_of_digit_char)
  next
    case False
    have m: "n mod 10 < 10" by simp
    from False have s: "show_nat n = show_nat (n div 10) @ [digit_char (n mod 10)]"
      by (simp add: show_nat.simps [of n])
    have "digits_val 10 acc (show_nat n)
            = Some ((acc * 10 ^ length (show_nat (n div 10)) + n div 10) * 10 + n mod 10)"
      by (simp add: s digits_val_append 1 [OF False] digit_of_digit_char [OF m])
    also have "(acc * 10 ^ length (show_nat (n div 10)) + n div 10) * 10 + n mod 10
                 = acc * 10 ^ length (show_nat n) + n"
      by (simp add: s algebra_simps)
    finally show ?thesis .
  qed
qed

lemma show_nat_not_empty: "show_nat n \<noteq> []"
  by (simp add: show_nat.simps [of n])

lemma parse_digits_show_nat: "parse_digits 10 (show_nat n) = Some n"
  by (simp add: parse_digits_def show_nat_not_empty digits_val_show_nat)

lemma digit_char_in: "d < 10 \<Longrightarrow> digit_char d \<in> set ''0123456789''"
proof -
  assume "d < 10"
  then have "d \<in> {0, 1, 2, 3, 4, 5, 6, 7, 8, 9}" by auto
  then show ?thesis by (auto simp: digit_char_def)
qed

lemma show_nat_chars: "set (show_nat n) \<subseteq> set ''0123456789''"
proof (induction n rule: show_nat.induct)
  case (1 n)
  show ?case
  proof (cases "n < 10")
    case True
    then show ?thesis
      using digit_char_in [of n] by (simp add: show_nat.simps [of n])
  next
    case False
    have "n mod 10 < 10" by simp
    from digit_char_in [OF this] 1 [OF False] False show ?thesis
      by (simp add: show_nat.simps [of n])
  qed
qed

lemma show_nat_no_comma: "CHR '','' \<notin> set (show_nat n)"
  using show_nat_chars [of n] by auto

lemma show_nat_no_brace: "CHR ''}'' \<notin> set (show_nat n)"
  using show_nat_chars [of n] by auto

lemma split_at_stop:
  "d \<notin> set xs \<Longrightarrow> split_at (\<lambda>c. c = d) (xs @ d # r) = (xs, Some r)"
proof -
  assume n: "d \<notin> set xs"
  then have a: "\<And>x. x \<in> set xs \<Longrightarrow> \<not> (x = d)" by auto
  have "dropWhile (\<lambda>c. \<not> c = d) (xs @ d # r) = d # r"
    using a by (simp add: dropWhile_append3)
  moreover have "takeWhile (\<lambda>c. \<not> c = d) (xs @ d # r) = xs"
    using a by (simp add: takeWhile_append2)
  ultimately show ?thesis by (simp add: split_at_def)
qed

lemma read_init_stringify_init: "read_init (stringify_init p c n) = Some (p, c, n)"
  by (simp add: read_init_def stringify_init_def split_at_stop show_nat_no_comma
      show_nat_no_brace parse_digits_show_nat)

lemma read_queued_stringify: "read_queued (stringify (Queued i n)) = Some (i, n)"
  by (simp add: read_queued_def split_at_stop show_nat_no_comma show_nat_no_brace
      parse_digits_show_nat)

lemma split_lines_line:
  "NL \<notin> set l \<Longrightarrow> split_lines acc (l @ NL # rest) = (acc @ l) # split_lines [] rest"
  by (induction l arbitrary: acc) auto

lemma sse_events_init:
  assumes "NL \<notin> set j0"
  shows "sse_events ((''event: init'' @ [NL]) @ (''data: '' @ j0 @ [NL, NL])) = [(''init'', [j0])]"
proof -
  have n1: "NL \<notin> set ''event: init''" by (simp add: NL_def)
  have n2: "NL \<notin> set (''data: '' @ j0)" using assms by (simp add: NL_def)
  have "split_lines [] (''event: init'' @ NL # (''data: '' @ j0) @ NL # [] @ NL # [])
          = [''event: init'', ''data: '' @ j0, []]"
    by (simp only: split_lines_line [OF n1] split_lines_line [OF n2]
        split_lines_line [of "[]"] append_Nil split_lines.simps) simp
  then show ?thesis
    by (simp add: sse_events_def)
qed

lemma sse_events_init_then:
  assumes "NL \<notin> set j0" and "NL \<notin> set j1"
  shows "sse_events (((''event: init'' @ [NL]) @ (''data: '' @ j0 @ [NL, NL]))
                       @ (''data: '' @ j1 @ [NL, NL]))
           = [(''init'', [j0]), (''message'', [j1])]"
proof -
  have n1: "NL \<notin> set ''event: init''" by (simp add: NL_def)
  have n2: "NL \<notin> set (''data: '' @ j0)" using assms by (simp add: NL_def)
  have n3: "NL \<notin> set (''data: '' @ j1)" using assms by (simp add: NL_def)
  have "split_lines [] (''event: init'' @ NL # (''data: '' @ j0) @ NL # [] @ NL #
                          (''data: '' @ j1) @ NL # [] @ NL # [])
          = [''event: init'', ''data: '' @ j0, [], ''data: '' @ j1, []]"
    by (simp only: split_lines_line [OF n1] split_lines_line [OF n2] split_lines_line [OF n3]
        split_lines_line [of "[]"] append_Nil split_lines.simps) simp
  then show ?thesis
    by (simp add: sse_events_def)
qed

section \<open>The observer set and a new observer\<close>

lemma fire_timer_subs [simp]:
  "subscribers (fire_timer k now rnd s) = subscribers s"
  "next_res (fire_timer k now rnd s) = next_res s"
  by (simp_all add: fire_timer_def Let_def split: timer.split)

lemma control_state_subs [simp]:
  "subscribers (control_state action consumeMs rnd s) = subscribers s"
  "next_res (control_state action consumeMs rnd s) = next_res s"
  by (simp_all add: control_state_def split: option.split)

lemma addJobs_subs [simp]:
  "subscribers (snd (addJobs count clock s)) = subscribers s"
  "next_res (snd (addJobs count clock s)) = next_res s"
  using addJobs_loop_frame [of count clock 0 0 0 s]
  by (auto simp: addJobs_def split: prod.split)

lemma sigint_subs [simp]:
  "subscribers (sigint s) = subscribers s"
  "next_res (sigint s) = next_res s"
  by (simp_all add: sigint_def Let_def)

lemma step_subs_ok:
  assumes "subs_ok s"
  shows "subs_ok (step e s)"
proof (cases e)
  case GetEvents
  from assms have "next_res s \<notin> set (subscribers s)"
    by (auto simp: subs_ok_def list_all_iff)
  with assms GetEvents show ?thesis
    by (auto simp: subs_ok_def list_all_iff events_handler_def Let_def set_add_def)
next
  case (ReqClose r)
  with assms show ?thesis
    by (auto simp: subs_ok_def list_all_iff req_close_def distinct_removeAll)
next
  case (ResBroken r)
  with assms show ?thesis
    by (simp add: subs_ok_def res_broken_def split: option.split)
next
  case (Control action consumeMs rnd)
  with assms show ?thesis
    by (simp add: subs_ok_def control_handler_def Let_def)
next
  case (EnqueueGet p clock)
  with assms show ?thesis
    by (simp add: subs_ok_def enqueue_get_def)
next
  case (EnqueuePost parsed clock)
  with assms show ?thesis
    by (simp add: subs_ok_def enqueue_post_def)
next
  case (TimerFire k now rnd)
  with assms show ?thesis
    by (simp add: subs_ok_def)
next
  case Sigint
  with assms show ?thesis
    by (simp add: subs_ok_def)
qed

lemma run_subs_ok: "subs_ok s \<Longrightarrow> subs_ok (run es s)"
  by (induction es arbitrary: s) (simp_all add: step_subs_ok)

lemma boot_subs_ok: "subs_ok (boot cap)"
  by (simp add: subs_ok_def boot_def initial_def)

lemma register_then_send:
  assumes "subs_ok s"
  shows "wire_of (fst (events_handler s)) (snd (events_handler s))
           = (''event: init'' @ [NL])
               @ (''data: '' @ stringify_init (produced s) (consumed s) (Queue_size (queue s))
                    @ [NL, NL])"
    and "wire_of (fst (events_handler s)) (sseSend obj (snd (events_handler s)))
           = ((''event: init'' @ [NL])
               @ (''data: '' @ stringify_init (produced s) (consumed s) (Queue_size (queue s))
                    @ [NL, NL]))
             @ (''data: '' @ stringify obj @ [NL, NL])"
proof -
  define r where "r = next_res s"
  define s1 where "s1 = snd (events_handler s)"
  from assms have fresh: "r \<notin> set (subscribers s)"
    by (auto simp: subs_ok_def list_all_iff r_def)
  have r: "fst (events_handler s) = r"
    by (simp add: events_handler_def Let_def r_def)
  have subs: "subscribers s1 = subscribers s @ [r]"
    using fresh by (simp add: s1_def events_handler_def Let_def set_add_def r_def)
  have c: "conns s1 r = Some \<lparr>closed = False,
      wire = (''event: init'' @ [NL])
        @ (''data: '' @ stringify_init (produced s) (consumed s) (Queue_size (queue s))
             @ [NL, NL])\<rparr>"
    by (simp add: s1_def events_handler_def Let_def r_def)
  from c show "wire_of (fst (events_handler s)) (snd (events_handler s))
           = (''event: init'' @ [NL])
               @ (''data: '' @ stringify_init (produced s) (consumed s) (Queue_size (queue s))
                    @ [NL, NL])"
    unfolding r s1_def [symmetric] by (simp add: wire_of_def)
  from assms fresh have d: "distinct (subscribers s1)"
    by (simp add: subs subs_ok_def)
  have "conns (sseSend obj s1) r
          = fan_out (''data: '' @ stringify obj @ [NL, NL]) (subscribers s1) (conns s1) r"
    by (simp add: sseSend_def)
  also have "\<dots> = Some (\<lparr>closed = False,
      wire = ((''event: init'' @ [NL])
        @ (''data: '' @ stringify_init (produced s) (consumed s) (Queue_size (queue s))
             @ [NL, NL])) @ (''data: '' @ stringify obj @ [NL, NL])\<rparr>)"
    by (simp only: fan_out_apply [OF d] c) (simp add: subs)
  finally show "wire_of (fst (events_handler s)) (sseSend obj (snd (events_handler s)))
           = ((''event: init'' @ [NL])
               @ (''data: '' @ stringify_init (produced s) (consumed s) (Queue_size (queue s))
                    @ [NL, NL]))
             @ (''data: '' @ stringify obj @ [NL, NL])"
    unfolding r s1_def [symmetric] by (simp add: wire_of_def)
qed

section \<open>Evaluating concrete runs\<close>

lemmas run_defs =
  boot_def initial_def consume_def Queue_new_def Queue_push_def Queue_shift_def Queue_size_def
  enqueue_get_def enqueue_post_def count_of_query_def count_of_body_def addJobs_def
  addJobs_loop.simps push_next_def sseSend_def fire_timer_def work_done_def
  control_handler_def control_state_def events_handler_def set_add_def req_close_def
  res_broken_def res_write_def sigint_def res_end_def Let_def clock0_def
  in_flight_def consumer_loops_def processed_events_def queued_events_def wire_of_def

lemmas number_defs =
  js_Number_string_def js_trim_def is_ws_def parse_unsigned_decimal_def split_at_def
  parse_mantissa_def parse_exponent_def parse_digits_def parse_prefixed_def digit_of_def
  digit_table_def pow10_def get_count_def

section \<open>The counters\<close>

text \<open>
  C2 (conservation), as the claim states it: while the loop is running and no item is
  lost, \<open>produced - consumed = queue.size()\<close> at all times. It fails as soon as the
  consumer has dequeued an item and not yet completed it: after one accepted enqueue and
  one poll of the consumer, \<open>produced = 1\<close>, \<open>consumed = 0\<close> and the queue is empty.
\<close>

theorem conservation_counterexample:
  "no_rejects [EnqueueGet None clock0, TimerFire 0 1050 0] (boot 20)
   \<and> running (run [EnqueueGet None clock0, TimerFire 0 1050 0] (boot 20))
   \<and> int (produced (run [EnqueueGet None clock0, TimerFire 0 1050 0] (boot 20)))
       - int (consumed (run [EnqueueGet None clock0, TimerFire 0 1050 0] (boot 20)))
     \<noteq> int (Queue_size (queue (run [EnqueueGet None clock0, TimerFire 0 1050 0] (boot 20))))"
  by (simp add: run_defs number_defs)

text \<open>
  C2 (conservation), amended. In every run from the start of the process in which no
  enqueue attempt is rejected, \<open>produced = consumed + queue.size() + \<close> the number of
  items in flight (dequeued, their processing not yet completed), whether or not the
  loop is running; the number of "queued" events emitted equals \<open>produced\<close> (one
  increment per accepted enqueue) and the number of "processed" events emitted equals
  \<open>consumed\<close> (one increment per completed processing).
\<close>

theorem conservation_without_rejection:
  assumes "no_rejects es (boot cap)"
  shows "produced (run es (boot cap))
           = consumed (run es (boot cap)) + Queue_size (queue (run es (boot cap)))
               + in_flight (run es (boot cap))
       \<and> queued_events (run es (boot cap)) = produced (run es (boot cap))
       \<and> processed_events (run es (boot cap)) = consumed (run es (boot cap))"
  using run_conserved [OF boot_conserved assms] by (simp add: conserved_def)

theorem conservation_without_rejection_witness:
  "no_rejects [EnqueueGet (Some ''2'') clock0, TimerFire 0 1050 0, TimerFire 0 1100 (1 / 2)]
     (boot 20)
   \<and> produced (run [EnqueueGet (Some ''2'') clock0, TimerFire 0 1050 0,
                     TimerFire 0 1100 (1 / 2)] (boot 20)) = 2
   \<and> consumed (run [EnqueueGet (Some ''2'') clock0, TimerFire 0 1050 0,
                     TimerFire 0 1100 (1 / 2)] (boot 20)) = 1
   \<and> Queue_size (queue (run [EnqueueGet (Some ''2'') clock0, TimerFire 0 1050 0,
                     TimerFire 0 1100 (1 / 2)] (boot 20))) = 0
   \<and> in_flight (run [EnqueueGet (Some ''2'') clock0, TimerFire 0 1050 0,
                     TimerFire 0 1100 (1 / 2)] (boot 20)) = 1
   \<and> queued_events (run [EnqueueGet (Some ''2'') clock0, TimerFire 0 1050 0,
                     TimerFire 0 1100 (1 / 2)] (boot 20)) = 2
   \<and> processed_events (run [EnqueueGet (Some ''2'') clock0, TimerFire 0 1050 0,
                     TimerFire 0 1100 (1 / 2)] (boot 20)) = 1"
proof -
  have h: "no_rejects [EnqueueGet (Some ''2'') clock0, TimerFire 0 1050 0,
                       TimerFire 0 1100 (1 / 2)] (boot 20)"
    by (simp add: run_defs number_defs)
  from conservation_without_rejection [OF h] h show ?thesis
    by (simp add: run_defs number_defs)
qed

section \<open>The batch scenario\<close>

text \<open>
  C4 (batch enqueue), as the claim states it: capacity 5, a request for 7 items, hence
  \<open>rejected = 2\<close>. The loop counts the rejected attempt and leaves; the response says
  \<open>rejected = 1\<close>.
\<close>

theorem batch_rejected_counterexample: "rejected (fst (enqueue_get (Some ''7'') clock0 (boot 5))) \<noteq> 2"
  by (simp add: run_defs number_defs)

text \<open>
  C4 (batch enqueue), amended. Starting from an empty queue of capacity 5, one request
  for 7 items yields \<open>accepted = 5\<close> and \<open>rejected = 1\<close>: the sixth attempt is the
  only one rejected and counted, and the seventh item is never attempted. Exactly one
  "backpressure" event is emitted, after the five "queued" events, and the queue holds
  the five accepted items afterwards.
\<close>

theorem batch_scenario:
  "accepted (fst (enqueue_get (Some ''7'') clock0 (boot 5))) = 5
   \<and> rejected (fst (enqueue_get (Some ''7'') clock0 (boot 5))) = 1
   \<and> queueSize (fst (enqueue_get (Some ''7'') clock0 (boot 5))) = 5
   \<and> Queue_size (queue (snd (enqueue_get (Some ''7'') clock0 (boot 5)))) = 5
   \<and> emitted (snd (enqueue_get (Some ''7'') clock0 (boot 5)))
       = [Queued 1 1, Queued 2 2, Queued 3 3, Queued 4 4, Queued 5 5, Backpressure 5]
   \<and> length (filter is_backpressure (emitted (snd (enqueue_get (Some ''7'') clock0 (boot 5)))))
       = 1
   \<and> map job_id (items (queue (snd (enqueue_get (Some ''7'') clock0 (boot 5)))))
       = [1, 2, 3, 4, 5]"
  by (simp add: run_defs number_defs)

section \<open>Pause\<close>

text \<open>
  C5 (pause), as the claim states it: after \<open>pause\<close> no "processed" event is emitted
  and \<open>consumed\<close> does not grow until \<open>resume\<close>, also when an item is in flight. The
  callback of the work timer does not look at \<open>running\<close>: an item in flight at the
  time of the pause completes, is counted and is announced.
\<close>

theorem pause_in_flight_counterexample:
  "\<not> running (run [EnqueueGet None clock0, TimerFire 0 1050 0,
                   Control (Some ''pause'') None 0] (boot 20))
   \<and> consumed (run [EnqueueGet None clock0, TimerFire 0 1050 0,
                   Control (Some ''pause'') None 0] (boot 20)) = 0
   \<and> consumed (run [EnqueueGet None clock0, TimerFire 0 1050 0,
                   Control (Some ''pause'') None 0, TimerFire 0 1100 0] (boot 20)) = 1
   \<and> emitted (run [EnqueueGet None clock0, TimerFire 0 1050 0,
                   Control (Some ''pause'') None 0, TimerFire 0 1100 0] (boot 20))
       = [Queued 1 1, Processed 1 100 0]"
  by (simp add: run_defs number_defs)

text \<open>
  C5 (pause), amended. From a state in which \<open>running\<close> is false, and as long as
  \<open>resume\<close> is not called: \<open>running\<close> stays false; nothing is dequeued (the queue
  only grows at its tail); each item that was in flight completes at most once, so
  \<open>consumed\<close> and the number of "processed" events grow by exactly the number of
  in-flight items that have completed; and when no item was in flight, no "processed"
  event is emitted and \<open>consumed\<close> does not change, whatever the queue holds.
\<close>

theorem pause_blocks_new_work:
  assumes "\<not> running s" and "no_resume es"
  shows "\<not> running (run es s)
       \<and> prefix (items (queue s)) (items (queue (run es s)))
       \<and> consumed (run es s) + in_flight (run es s) = consumed s + in_flight s
       \<and> processed_events (run es s) + in_flight (run es s) = processed_events s + in_flight s
       \<and> in_flight (run es s) \<le> in_flight s
       \<and> (in_flight s = 0 \<longrightarrow>
            consumed (run es s) = consumed s \<and> processed_events (run es s) = processed_events s)"
  using run_paused [OF assms] by auto

theorem pause_blocks_new_work_witness:
  "\<not> running (run [EnqueueGet (Some ''2'') clock0, TimerFire 0 1050 0,
                   Control (Some ''pause'') None 0] (boot 20))
   \<and> no_resume [TimerFire 0 1100 0, EnqueueGet None clock0, TimerFire 0 1200 0]
   \<and> in_flight (run [EnqueueGet (Some ''2'') clock0, TimerFire 0 1050 0,
                   Control (Some ''pause'') None 0] (boot 20)) = 1
   \<and> consumed (run [EnqueueGet (Some ''2'') clock0, TimerFire 0 1050 0,
                   Control (Some ''pause'') None 0] (boot 20)) = 0
   \<and> consumed (run [TimerFire 0 1100 0, EnqueueGet None clock0, TimerFire 0 1200 0]
        (run [EnqueueGet (Some ''2'') clock0, TimerFire 0 1050 0,
              Control (Some ''pause'') None 0] (boot 20))) = 1
   \<and> in_flight (run [TimerFire 0 1100 0, EnqueueGet None clock0, TimerFire 0 1200 0]
        (run [EnqueueGet (Some ''2'') clock0, TimerFire 0 1050 0,
              Control (Some ''pause'') None 0] (boot 20))) = 0
   \<and> map job_id (items (queue (run [TimerFire 0 1100 0, EnqueueGet None clock0,
                                     TimerFire 0 1200 0]
        (run [EnqueueGet (Some ''2'') clock0, TimerFire 0 1050 0,
              Control (Some ''pause'') None 0] (boot 20))))) = [2, 3]
   \<and> \<not> running (run [EnqueueGet (Some ''2'') clock0, Control (Some ''pause'') None 0] (boot 20))
   \<and> no_resume [TimerFire 0 1100 0, EnqueueGet None clock0]
   \<and> in_flight (run [EnqueueGet (Some ''2'') clock0, Control (Some ''pause'') None 0]
        (boot 20)) = 0
   \<and> consumed (run [TimerFire 0 1100 0, EnqueueGet None clock0]
        (run [EnqueueGet (Some ''2'') clock0, Control (Some ''pause'') None 0] (boot 20)))
       = consumed (run [EnqueueGet (Some ''2'') clock0, Control (Some ''pause'') None 0]
           (boot 20))
   \<and> processed_events (run [TimerFire 0 1100 0, EnqueueGet None clock0]
        (run [EnqueueGet (Some ''2'') clock0, Control (Some ''pause'') None 0] (boot 20)))
       = processed_events (run [EnqueueGet (Some ''2'') clock0, Control (Some ''pause'') None 0]
           (boot 20))"
proof -
  have p1: "\<not> running (run [EnqueueGet (Some ''2'') clock0, TimerFire 0 1050 0,
                   Control (Some ''pause'') None 0] (boot 20))"
    by (simp add: run_defs number_defs)
  have n1: "no_resume [TimerFire 0 1100 0, EnqueueGet None clock0, TimerFire 0 1200 0]"
    by simp
  have p2: "\<not> running (run [EnqueueGet (Some ''2'') clock0, Control (Some ''pause'') None 0]
                  (boot 20))"
    by (simp add: run_defs number_defs)
  have n2: "no_resume [TimerFire 0 1100 0, EnqueueGet None clock0]"
    by simp
  have f2: "in_flight (run [EnqueueGet (Some ''2'') clock0, Control (Some ''pause'') None 0]
        (boot 20)) = 0"
    by (simp add: run_defs number_defs)
  from pause_blocks_new_work [OF p1 n1] pause_blocks_new_work [OF p2 n2] p1 p2 f2 n1 n2
  show ?thesis
    by (simp add: run_defs number_defs)
qed

section \<open>Stale observers\<close>

text \<open>
  C6 (stale observer), as the claim states it: the observer whose write fails is dropped
  from the observer set by the fan-out. The \<open>catch\<close> block is empty: after a
  broadcast to a closed observer, the observer is still in the set.
\<close>

theorem stale_observer_counterexample:
  "res_write (the (conns (run [GetEvents, ResBroken 0] (boot 20)) 0))
       (''data: '' @ stringify (Queued 1 1) @ [NL, NL]) = Inl WriteError
   \<and> 0 \<in> set (subscribers (sseSend (Queued 1 1) (run [GetEvents, ResBroken 0] (boot 20))))"
  by (simp add: run_defs number_defs)

text \<open>
  C6 (stale observer), amended. A broadcast never fails and never changes the observer
  set: a write failure on a closed observer is caught inside the loop, the observer
  stays registered (only the \<open>close\<close> event of its request removes it) and receives
  nothing, and every open observer, before or after the failing one, receives the
  line.
\<close>

theorem fan_out_keeps_observers:
  assumes "distinct (subscribers s)"
  shows "subscribers (sseSend obj s) = subscribers s
       \<and> conns (sseSend obj s) r =
           (case conns s r of
              None \<Rightarrow> None
            | Some c \<Rightarrow>
                Some (if r \<in> set (subscribers s) \<and> \<not> closed c
                      then c\<lparr>wire := wire c @ (''data: '' @ stringify obj @ [NL, NL])\<rparr>
                      else c))"
  by (cases "conns s r") (simp_all add: sseSend_def fan_out_apply [OF assms])

theorem fan_out_keeps_observers_witness:
  "distinct (subscribers (run [GetEvents, ResBroken 0, GetEvents] (boot 20)))
   \<and> subscribers (sseSend (Backpressure 20) (run [GetEvents, ResBroken 0, GetEvents] (boot 20)))
       = [0, 1]
   \<and> closed (the (conns (run [GetEvents, ResBroken 0, GetEvents] (boot 20)) 0))
   \<and> wire_of 0 (sseSend (Backpressure 20) (run [GetEvents, ResBroken 0, GetEvents] (boot 20)))
       = wire_of 0 (run [GetEvents, ResBroken 0, GetEvents] (boot 20))
   \<and> wire_of 1 (sseSend (Backpressure 20) (run [GetEvents, ResBroken 0, GetEvents] (boot 20)))
       = wire_of 1 (run [GetEvents, ResBroken 0, GetEvents] (boot 20))
           @ (''data: '' @ stringify (Backpressure 20) @ [NL, NL])"
proof -
  have d: "distinct (subscribers (run [GetEvents, ResBroken 0, GetEvents] (boot 20)))"
    by (simp add: run_defs)
  note t0 = fan_out_keeps_observers [OF d, of "Backpressure 20" 0]
  note t1 = fan_out_keeps_observers [OF d, of "Backpressure 20" 1]
  have c0: "conns (run [GetEvents, ResBroken 0, GetEvents] (boot 20)) 0
              = Some \<lparr>closed = True, wire = (''event: init'' @ [NL])
                  @ (''data: '' @ stringify_init 0 0 0 @ [NL, NL])\<rparr>"
    by (simp add: run_defs)
  have c1: "conns (run [GetEvents, ResBroken 0, GetEvents] (boot 20)) 1
              = Some \<lparr>closed = False, wire = (''event: init'' @ [NL])
                  @ (''data: '' @ stringify_init 0 0 0 @ [NL, NL])\<rparr>"
    by (simp add: run_defs)
  have sb: "subscribers (run [GetEvents, ResBroken 0, GetEvents] (boot 20)) = [0, 1]"
    by (simp add: run_defs)
  from t0 t1 show ?thesis
    unfolding wire_of_def c0 c1 sb by simp
qed

section \<open>Input clamping\<close>

lemma clamp_at_least_one: "x \<noteq> NaN \<Longrightarrow> js_le (Fin 1) (js_max (Fin 1) x)"
  by (cases x) simp_all

text \<open>
  C7 (count clamping). The claim: the count that drives the batch loop is at least 1,
  also for a malformed, non-numeric count. The code at \<open>count=abc\<close>: \<open>Number\<close>
  gives NaN, \<open>Math.max(1, NaN)\<close> is NaN, the loop condition \<open>0 < NaN\<close> is false and
  no item is attempted; the same holds for the POST body \<open>{"count":"abc"}\<close>.
\<close>

theorem enqueue_count_nan:
  "count_of_query (Some ''abc'') = NaN
   \<and> \<not> js_le (Fin 1) (count_of_query (Some ''abc''))
   \<and> accepted (fst (enqueue_get (Some ''abc'') clock0 (boot 20))) = 0
   \<and> rejected (fst (enqueue_get (Some ''abc'') clock0 (boot 20))) = 0
   \<and> count_of_body (Some (JObj [(''count'', JStr ''abc'')])) = NaN"
  by (simp add: run_defs number_defs)

lemma set_keeps_timers:
  "timers (control_state (Some ''set'') consumeMs rnd s) = timers s"
  by (simp add: control_state_def split: option.split)

lemma idle_poll_uses_current_interval:
  "running s \<Longrightarrow> items (queue s) = [] \<Longrightarrow>
     timers (consume rnd s) = timers s @ [ConsumeTimer (consumePollMs s)]"
  by (simp add: consume_def Queue_shift_def)

text \<open>
  C8 (poll interval clamping). The claim: after a control request with a \<open>consumeMs\<close>
  value the stored interval is at least 1. The code at \<open>consumeMs=abc\<close>:
  \<open>Math.max(1, Number("abc"))\<close> is NaN, which is stored and is not at least 1.
\<close>

theorem poll_interval_nan:
  "consumePollMs (step (Control (Some ''set'') (Some ''abc'') 0) (boot 20)) = NaN
   \<and> \<not> js_le (Fin 1) (consumePollMs (step (Control (Some ''set'') (Some ''abc'') 0) (boot 20)))"
  by (simp add: run_defs number_defs)

section \<open>Registration of an observer\<close>

text \<open>
  C9 (initial state). In every state that the process reaches, a newly registered
  observer has read exactly one event right after registration, the \<open>init\<close> event
  with the counters \<open>{produced, consumed, queueSize}\<close> of that moment; after one
  "queued" event is emitted, its stream is the text of the \<open>init\<close> event followed by
  the text of the "queued" event, and it has read exactly two events, the \<open>init\<close>
  event and then the "queued" event. The three counters are read back from the data of
  the \<open>init\<close> event, and the id and size from the data of the "queued" event. In the
  run that enqueues three items, completes one, registers an observer and enqueues one
  more item, the observer's stream is, literally, \<open>event: init\<close>,
  \<open>data: {"produced":3,"consumed":1,"queueSize":1}\<close>, an empty line,
  \<open>data: {"type":"queued","id":4,"size":2}\<close> and an empty line.
\<close>

theorem initial_state_then_live:
  \<open>wire_of (fst (events_handler (run es (boot cap))))
       (sseSend (Queued i n) (snd (events_handler (run es (boot cap)))))
     = ((''event: init'' @ [NL])
         @ (''data: '' @ stringify_init (produced (run es (boot cap)))
                           (consumed (run es (boot cap)))
                           (Queue_size (queue (run es (boot cap)))) @ [NL, NL]))
       @ (''data: '' @ stringify (Queued i n) @ [NL, NL])
   \<and> sse_events (wire_of (fst (events_handler (run es (boot cap))))
                   (snd (events_handler (run es (boot cap)))))
     = [(''init'', [stringify_init (produced (run es (boot cap))) (consumed (run es (boot cap)))
                     (Queue_size (queue (run es (boot cap))))])]
   \<and> sse_events (wire_of (fst (events_handler (run es (boot cap))))
                   (sseSend (Queued i n) (snd (events_handler (run es (boot cap))))))
     = [(''init'', [stringify_init (produced (run es (boot cap))) (consumed (run es (boot cap)))
                     (Queue_size (queue (run es (boot cap))))]),
        (''message'', [stringify (Queued i n)])]
   \<and> read_events (wire_of (fst (events_handler (run es (boot cap))))
                    (snd (events_handler (run es (boot cap)))))
     = [SawInit (produced (run es (boot cap))) (consumed (run es (boot cap)))
          (Queue_size (queue (run es (boot cap))))]
   \<and> read_events (wire_of (fst (events_handler (run es (boot cap))))
                    (sseSend (Queued i n) (snd (events_handler (run es (boot cap))))))
     = [SawInit (produced (run es (boot cap))) (consumed (run es (boot cap)))
          (Queue_size (queue (run es (boot cap)))),
        SawQueued i n]
   \<and> wire_of 0 (run [EnqueueGet (Some ''3'') clock0, TimerFire 0 1050 0, TimerFire 0 1100 0,
                      GetEvents, EnqueueGet None clock0] (boot 5))
     = (''event: init'' @ [NL])
       @ (''data: {"produced":3,"consumed":1,"queueSize":1}'' @ [NL, NL])
       @ (''data: {"type":"queued","id":4,"size":2}'' @ [NL, NL])\<close>
proof -
  have ok: "subs_ok (run es (boot cap))"
    by (rule run_subs_ok [OF boot_subs_ok])
  note w = register_then_send [OF ok]
  have e1: "sse_events (wire_of (fst (events_handler (run es (boot cap))))
                   (snd (events_handler (run es (boot cap)))))
     = [(''init'', [stringify_init (produced (run es (boot cap))) (consumed (run es (boot cap)))
                     (Queue_size (queue (run es (boot cap))))])]"
    by (simp only: w(1) sse_events_init [OF stringify_init_no_NL])
  have e2: "sse_events (wire_of (fst (events_handler (run es (boot cap))))
                   (sseSend (Queued i n) (snd (events_handler (run es (boot cap))))))
     = [(''init'', [stringify_init (produced (run es (boot cap))) (consumed (run es (boot cap)))
                     (Queue_size (queue (run es (boot cap))))]),
        (''message'', [stringify (Queued i n)])]"
    by (simp only: w(2) sse_events_init_then [OF stringify_init_no_NL stringify_no_NL])
  have r1: "read_events (wire_of (fst (events_handler (run es (boot cap))))
                    (snd (events_handler (run es (boot cap)))))
     = [SawInit (produced (run es (boot cap))) (consumed (run es (boot cap)))
          (Queue_size (queue (run es (boot cap))))]"
    unfolding read_events_def e1
    by (simp add: read_event_def read_init_stringify_init)
  have r2: "read_events (wire_of (fst (events_handler (run es (boot cap))))
                    (sseSend (Queued i n) (snd (events_handler (run es (boot cap))))))
     = [SawInit (produced (run es (boot cap))) (consumed (run es (boot cap)))
          (Queue_size (queue (run es (boot cap)))),
        SawQueued i n]"
    unfolding read_events_def e2
    by (simp add: read_event_def read_init_stringify_init read_queued_stringify
        del: stringify.simps)
  have ex: \<open>wire_of 0 (run [EnqueueGet (Some ''3'') clock0, TimerFire 0 1050 0,
                      TimerFire 0 1100 0, GetEvents, EnqueueGet None clock0] (boot 5))
     = (''event: init'' @ [NL])
       @ (''data: {"produced":3,"consumed":1,"queueSize":1}'' @ [NL, NL])
       @ (''data: {"type":"queued","id":4,"size":2}'' @ [NL, NL])\<close>
    by (simp add: run_defs number_defs stringify_init_def show_nat.simps digit_char_def)
  from w(2) [of "Queued i n"] e1 e2 r1 r2 ex show ?thesis
    by (intro conjI)
qed

section \<open>Resume\<close>

lemma resume_when_running:
  "running s \<Longrightarrow> control_state (Some ''resume'') consumeMs rnd s = s"
  by (simp add: control_state_def)

lemma resume_twice:
  "control_state (Some ''resume'') c2 rnd2 (control_state (Some ''resume'') c1 rnd1 s)
     = control_state (Some ''resume'') c1 rnd1 s"
proof (cases "running s")
  case True
  then show ?thesis by (simp add: control_state_def)
next
  case False
  have "running (consume rnd1 (s\<lparr>running := True\<rparr>))" by simp
  with False show ?thesis by (simp add: control_state_def)
qed

text \<open>
  C10 (resume). The claim: \<open>resume\<close> is idempotent and at most one consumer loop is
  ever active. \<open>resume\<close> on a running process changes nothing, and a second
  \<open>resume\<close> changes nothing (the two lemmas above). But \<open>pause\<close> does not cancel
  the pending timer of the loop: \<open>resume\<close> right after \<open>pause\<close> starts a second
  loop beside the first, and the two then process two items at the same time.
\<close>

theorem resume_second_loop:
  "consumer_loops (boot 20) = 1
   \<and> consumer_loops (run [Control (Some ''pause'') None 0, Control (Some ''resume'') None 0]
        (boot 20)) = 2
   \<and> in_flight (run [Control (Some ''pause'') None 0, Control (Some ''resume'') None 0,
        EnqueueGet (Some ''2'') clock0, TimerFire 0 1050 0, TimerFire 0 1050 0] (boot 20)) = 2"
  by (simp add: run_defs number_defs)

end
